theory Spec2Isabelle
  imports Main "HOL-Library.Sublist"
begin

section \<open>The streaming secret redactor (internal/redactor/redactor.go)\<close>

text \<open>
  Go byte slices and strings are modelled as \<open>string\<close> (a list of 8-bit characters),
  Go \<open>int\<close> as \<open>int\<close> (buffer positions never come near 64 bits, so no wrap-around
  is written out).  A run-time panic of the Go code (index or slice bounds out of range)
  is the result \<open>None\<close>; an error returned by the destination writer is a value
  \<open>Some e\<close> beside the state.  The mutex of the Go struct is left out: every
  operation below is one critical section.
\<close>

subsection \<open>The destination writer\<close>

text \<open>
  \<open>dst\<close> is an \<open>io.Writer\<close> outside the repository.  It is modelled by what it has
  received, the number of \<open>Write\<close> calls made to it, and a script of its remaining
  answers: \<open>None\<close> accepts the whole slice, \<open>Some (k, e)\<close> accepts at most \<open>k\<close> bytes and
  returns the error \<open>e\<close>; once the script is used up every call succeeds.
\<close>

datatype error = SinkFault nat

record sink =
  received :: string
  calls :: nat
  plan :: "(nat \<times> error) option list"

definition sink_write :: "sink \<Rightarrow> string \<Rightarrow> sink \<times> error option" where
  "sink_write d p =
     (case plan d of
        [] \<Rightarrow> (d\<lparr>received := received d @ p, calls := Suc (calls d)\<rparr>, None)
      | None # rest \<Rightarrow>
          (d\<lparr>received := received d @ p, calls := Suc (calls d), plan := rest\<rparr>, None)
      | Some (k, e) # rest \<Rightarrow>
          (d\<lparr>received := received d @ take k p, calls := Suc (calls d), plan := rest\<rparr>,
           Some e))"

definition reliable :: "sink \<Rightarrow> bool" where
  "reliable d = list_all (\<lambda>a. a = None) (plan d)"

subsection \<open>Ranges\<close>

text \<open>\<open>subrange\<close>: fields \<open>from\<close> and \<open>to\<close> of the source are \<open>rfrom\<close> and \<open>rto\<close>.\<close>

record subrange =
  rfrom :: int
  rto :: int

definition sub :: "subrange \<Rightarrow> int \<Rightarrow> subrange" where
  "sub r x = \<lparr>rfrom = rfrom r - x, rto = rto r - x\<rparr>"

definition contains :: "subrange \<Rightarrow> int \<Rightarrow> bool" where
  "contains r x = (rfrom r \<le> x \<and> x < rto r)"

definition overlap :: "subrange \<Rightarrow> subrange \<Rightarrow> bool" where
  "overlap r s = (contains r (rfrom s) \<or> contains s (rfrom r))"

definition union :: "subrange \<Rightarrow> subrange \<Rightarrow> subrange" where
  "union r s =
     (let s1 = (if rfrom r < rfrom s then s\<lparr>rfrom := rfrom r\<rparr> else s)
      in (if rto r > rto s1 then s1\<lparr>rto := rto r\<rparr> else s1))"

text \<open>
  The loop of \<open>mergeOverlaps\<close>: \<open>mergeLoop rs j (Suc i)\<close> is the iteration at index \<open>i\<close>
  (the Go loop counts \<open>i\<close> from \<open>j - 1\<close> down to \<open>0\<close>), working in place on \<open>rs\<close>.
  It returns the array and the final \<open>j\<close>.  Throughout \<open>i < j < len(rs)\<close>, so no index
  is out of range.
\<close>

fun mergeLoop :: "subrange list \<Rightarrow> nat \<Rightarrow> nat \<Rightarrow> subrange list \<times> nat" where
  "mergeLoop rs j 0 = (rs, j)"
| "mergeLoop rs j (Suc i) =
     (if overlap (rs ! j) (rs ! i)
      then mergeLoop (rs[j := union (rs ! j) (rs ! i)]) j i
      else mergeLoop (rs[j - 1 := rs ! i]) (j - 1) i)"

text \<open>\<open>copy(rs, rs[j:])\<close> followed by \<open>rs[:rem]\<close> leaves the elements from \<open>j\<close> on.\<close>

definition mergeOverlaps :: "subrange list \<Rightarrow> subrange list" where
  "mergeOverlaps rs =
     (if length rs \<le> 1 then rs
      else (case mergeLoop rs (length rs - 1) (length rs - 1) of (rs', j) \<Rightarrow> drop j rs'))"

subsection \<open>The redactor state\<close>

record partialMatch =
  needle :: string
  matched :: int

record Redactor =
  subst :: string
  needlesByFirstByte :: "char \<Rightarrow> string list"
  dst :: sink
  buf :: string
  partialMatches :: "partialMatch list"
  nextMatches :: "partialMatch list"
  completedMatches :: "subrange list"

text \<open>
  \<open>b[lo:hi]\<close>.  Go allows \<open>hi\<close> up to the capacity of the slice; the model keeps no
  capacity and takes every bound beyond the length as a panic.
\<close>

definition slice :: "string \<Rightarrow> int \<Rightarrow> int \<Rightarrow> string option" where
  "slice b lo hi =
     (if 0 \<le> lo \<and> lo \<le> hi \<and> hi \<le> int (length b)
      then Some (take (nat (hi - lo)) (drop (nat lo) b)) else None)"

subsection \<open>Write: the scan over the new bytes\<close>

text \<open>
  The loop over \<open>r.partialMatches\<close> for one byte \<open>c\<close> at buffer index \<open>bufidx\<close>, with the
  lists \<open>r.nextMatches\<close> and \<open>r.completedMatches\<close> it appends to.
\<close>

fun scanPartial ::
  "char \<Rightarrow> int \<Rightarrow> partialMatch list \<Rightarrow> partialMatch list \<Rightarrow> subrange list
     \<Rightarrow> (partialMatch list \<times> subrange list) option" where
  "scanPartial c bufidx [] nxt cm = Some (nxt, cm)"
| "scanPartial c bufidx (s # ss) nxt cm =
     (if matched s < 0 \<or> int (length (needle s)) \<le> matched s then None
      else if c \<noteq> needle s ! nat (matched s) then scanPartial c bufidx ss nxt cm
      else if matched s + 1 < int (length (needle s))
      then scanPartial c bufidx ss (nxt @ [s\<lparr>matched := matched s + 1\<rparr>]) cm
      else scanPartial c bufidx ss nxt
             (cm @ [\<lparr>rfrom = bufidx - int (length (needle s)) + 1, rto = bufidx + 1\<rparr>]))"

text \<open>The loop over \<open>r.needlesByFirstByte[c]\<close>.\<close>

fun startMatches ::
  "int \<Rightarrow> string list \<Rightarrow> partialMatch list \<Rightarrow> subrange list
     \<Rightarrow> partialMatch list \<times> subrange list" where
  "startMatches bufidx [] nxt cm = (nxt, cm)"
| "startMatches bufidx (s # ss) nxt cm =
     (if length s = 1
      then startMatches bufidx ss nxt (cm @ [\<lparr>rfrom = bufidx, rto = bufidx + 1\<rparr>])
      else startMatches bufidx ss (nxt @ [\<lparr>needle = s, matched = 1\<rparr>]) cm)"

text \<open>
  The loop \<open>for n, c := range b\<close>; \<open>n\<close> is the index of the head of the remaining bytes.
\<close>

fun scanBytes :: "Redactor \<Rightarrow> int \<Rightarrow> int \<Rightarrow> string \<Rightarrow> Redactor option" where
  "scanBytes r prevBufLen n [] = Some r"
| "scanBytes r prevBufLen n (c # cs) =
     (let bufidx = n + prevBufLen in
      case scanPartial c bufidx (partialMatches r) (nextMatches r) (completedMatches r) of
        None \<Rightarrow> None
      | Some (nxt, cm) \<Rightarrow>
          (case startMatches bufidx (needlesByFirstByte r c) nxt cm of
             (nxt', cm') \<Rightarrow>
               scanBytes (r\<lparr>partialMatches := nxt', nextMatches := [],
                            completedMatches := cm'\<rparr>) prevBufLen (n + 1) cs))"

text \<open>The flush limit: \<open>len(r.buf)\<close> lowered to every \<open>len(r.buf) - s.matched\<close>.\<close>

fun flushLimit :: "int \<Rightarrow> int \<Rightarrow> partialMatch list \<Rightarrow> int" where
  "flushLimit l limit [] = limit"
| "flushLimit l limit (s # ss) =
     (let t = l - matched s in flushLimit l (if t < limit then t else limit) ss)"

subsection \<open>flushUpTo\<close>

text \<open>
  The loop over \<open>r.completedMatches\<close>: \<open>ri\<close> is the index of the head of the remaining
  ranges.  It changes nothing but the sink and returns either the sink's error or the
  final \<open>bufidx\<close> and \<open>done\<close>.
\<close>

fun flushRanges ::
  "string \<Rightarrow> string \<Rightarrow> int \<Rightarrow> subrange list \<Rightarrow> int \<Rightarrow> sink \<Rightarrow> int \<Rightarrow> int
     \<Rightarrow> (sink \<times> (error + int \<times> int)) option" where
  "flushRanges sb b limit [] ri d bufidx dn = Some (d, Inr (bufidx, dn))"
| "flushRanges sb b limit (m # ms) ri d bufidx dn =
     (if rfrom m \<ge> limit then Some (d, Inr (bufidx, dn))
      else if bufidx < rfrom m then
        (case slice b bufidx (rfrom m) of
           None \<Rightarrow> None
         | Some seg \<Rightarrow>
             (case sink_write d seg of
                (d1, Some e) \<Rightarrow> Some (d1, Inl e)
              | (d1, None) \<Rightarrow>
                  (case sink_write d1 sb of
                     (d2, Some e) \<Rightarrow> Some (d2, Inl e)
                   | (d2, None) \<Rightarrow> flushRanges sb b limit ms (ri + 1) d2 (rto m) ri)))
      else if bufidx = rfrom m then
        (case sink_write d sb of
           (d2, Some e) \<Rightarrow> Some (d2, Inl e)
         | (d2, None) \<Rightarrow> flushRanges sb b limit ms (ri + 1) d2 (rto m) ri)
      else flushRanges sb b limit ms (ri + 1) d (rto m) ri)"

text \<open>
  The re-basing loop \<open>for i, match := range r.completedMatches[done+1:]\<close>, in place:
  iteration \<open>i\<close> reads index \<open>k + i\<close> (with \<open>k = done + 1\<close>) and writes index \<open>i\<close>.
\<close>

fun rebaseLoop :: "subrange list \<Rightarrow> nat \<Rightarrow> int \<Rightarrow> nat \<Rightarrow> nat \<Rightarrow> subrange list" where
  "rebaseLoop cm k bufidx i 0 = cm"
| "rebaseLoop cm k bufidx i (Suc n) =
     rebaseLoop (cm[i := sub (cm ! (k + i)) bufidx]) k bufidx (Suc i) n"

text \<open>The end of \<open>flushUpTo\<close>, from \<open>// We got to the end of the buffer?\<close> on.\<close>

definition compact :: "Redactor \<Rightarrow> int \<Rightarrow> int \<Rightarrow> Redactor option" where
  "compact r bufidx dn =
     (if bufidx \<ge> int (length (buf r)) then Some (r\<lparr>buf := [], completedMatches := []\<rparr>)
      else if bufidx < 0 \<or> dn + 1 < 0 \<or> int (length (completedMatches r)) < dn + 1
      then None
      else
        (let k = nat (dn + 1);
             rem = length (completedMatches r) - k
         in Some (r\<lparr>buf := drop (nat bufidx) (buf r),
                    completedMatches :=
                      take rem (rebaseLoop (completedMatches r) k bufidx 0 rem)\<rparr>)))"

definition flushUpTo :: "Redactor \<Rightarrow> int \<Rightarrow> (Redactor \<times> error option) option" where
  "flushUpTo r limit =
     (if limit = 0 \<or> length (buf r) = 0 then Some (r, None)
      else
        (case flushRanges (subst r) (buf r) limit (completedMatches r) 0 (dst r) 0 (- 1) of
           None \<Rightarrow> None
         | Some (d, Inl e) \<Rightarrow> Some (r\<lparr>dst := d\<rparr>, Some e)
         | Some (d, Inr (bufidx, dn)) \<Rightarrow>
             (if bufidx < limit then
                (case slice (buf r) bufidx limit of
                   None \<Rightarrow> None
                 | Some seg \<Rightarrow>
                     (case sink_write d seg of
                        (d', Some e) \<Rightarrow> Some (r\<lparr>dst := d'\<rparr>, Some e)
                      | (d', None) \<Rightarrow>
                          map_option (\<lambda>r'. (r', None)) (compact (r\<lparr>dst := d'\<rparr>) limit dn)))
              else map_option (\<lambda>r'. (r', None)) (compact (r\<lparr>dst := d\<rparr>) bufidx dn))))"

subsection \<open>The operations\<close>

text \<open>\<open>Write\<close> returns the new state, the byte count and the error.\<close>

definition Write :: "Redactor \<Rightarrow> string \<Rightarrow> (Redactor \<times> int \<times> error option) option" where
  "Write r b =
     (if length b = 0 then Some (r, 0, None)
      else
        (let prevBufLen = int (length (buf r));
             r1 = r\<lparr>buf := buf r @ b\<rparr>
         in case scanBytes r1 prevBufLen 0 b of
              None \<Rightarrow> None
            | Some r2 \<Rightarrow>
                (let r3 = r2\<lparr>completedMatches := mergeOverlaps (completedMatches r2)\<rparr>;
                     limit = flushLimit (int (length (buf r3))) (int (length (buf r3)))
                               (partialMatches r3)
                 in case flushUpTo r3 limit of
                      None \<Rightarrow> None
                    | Some (r4, Some e) \<Rightarrow> Some (r4, limit - prevBufLen, Some e)
                    | Some (r4, None) \<Rightarrow> Some (r4, int (length b), None))))"

definition Flush :: "Redactor \<Rightarrow> (Redactor \<times> error option) option" where
  "Flush r = flushUpTo (r\<lparr>partialMatches := []\<rparr>) (int (length (buf r)))"

definition addNeedle :: "(char \<Rightarrow> string list) \<Rightarrow> string \<Rightarrow> (char \<Rightarrow> string list)" where
  "addNeedle idx s = (if length s = 0 then idx else idx(hd s := idx (hd s) @ [s]))"

definition Reset :: "Redactor \<Rightarrow> string list \<Rightarrow> Redactor" where
  "Reset r needles = r\<lparr>needlesByFirstByte := foldl addNeedle (\<lambda>c. []) needles\<rparr>"

definition New :: "sink \<Rightarrow> string \<Rightarrow> string list \<Rightarrow> Redactor" where
  "New d sb needles =
     Reset \<lparr>subst = sb, needlesByFirstByte = (\<lambda>c. []), dst = d, buf = [],
            partialMatches = [], nextMatches = [], completedMatches = []\<rparr> needles"

subsection \<open>Runs\<close>

text \<open>
  A sequence of \<open>Write\<close> calls, each of which returns without an error; the result is
  \<open>None\<close> as soon as one call panics or returns an error.
\<close>

fun WriteAll :: "Redactor \<Rightarrow> string list \<Rightarrow> Redactor option" where
  "WriteAll r [] = Some r"
| "WriteAll r (b # bs) =
     (case Write r b of Some (r', n, None) \<Rightarrow> WriteAll r' bs | _ \<Rightarrow> None)"

text \<open>
  A whole stream: a new redactor, the chunks written one after the other, a terminal
  \<open>Flush\<close>; the result is what the sink has received.
\<close>

definition filterStream ::
  "sink \<Rightarrow> string \<Rightarrow> string list \<Rightarrow> string list \<Rightarrow> string option" where
  "filterStream d sb needles chunks =
     (case WriteAll (New d sb needles) chunks of
        None \<Rightarrow> None
      | Some r \<Rightarrow>
          (case Flush r of Some (r', None) \<Rightarrow> Some (received (dst r')) | _ \<Rightarrow> None))"

definition emptySink :: sink where
  "emptySink = \<lparr>received = [], calls = 0, plan = []\<rparr>"

subsection \<open>VarsToRedact\<close>

text \<open>
  \<open>path.Match\<close> belongs to the Go standard library; it is the parameter \<open>pmatch\<close>, with
  \<open>None\<close> for \<open>path.ErrBadPattern\<close>.  The logger is the list of warnings it has been
  given, oldest first.  The environment map is an association list whose order is the
  order in which \<open>range\<close> happens to visit the map; the keys of a Go map are distinct.
\<close>

definition RedactLengthMin :: nat where
  "RedactLengthMin = 6"

datatype warning = BadPattern string | BelowMinimum string nat

text \<open>
  The loop over \<open>patterns\<close> for one variable: the result says whether \<open>vars[name] = val\<close>
  was executed.
\<close>

fun matchVar ::
  "(string \<Rightarrow> string \<Rightarrow> bool option) \<Rightarrow> string \<Rightarrow> string \<Rightarrow> string list \<Rightarrow> warning list
     \<Rightarrow> bool \<times> warning list" where
  "matchVar pmatch name val [] logger = (False, logger)"
| "matchVar pmatch name val (pattern # ps) logger =
     (case pmatch pattern name of
        None \<Rightarrow> matchVar pmatch name val ps (logger @ [BadPattern pattern])
      | Some False \<Rightarrow> matchVar pmatch name val ps logger
      | Some True \<Rightarrow>
          (if length val < RedactLengthMin
           then matchVar pmatch name val ps
                  (if length val > 0 then logger @ [BelowMinimum name RedactLengthMin]
                   else logger)
           else (True, logger)))"

fun varsLoop ::
  "(string \<Rightarrow> string \<Rightarrow> bool option) \<Rightarrow> string list \<Rightarrow> (string \<times> string) list
     \<Rightarrow> (string \<rightharpoonup> string) \<Rightarrow> warning list \<Rightarrow> (string \<rightharpoonup> string) \<times> warning list" where
  "varsLoop pmatch patterns [] vars logger = (vars, logger)"
| "varsLoop pmatch patterns ((name, val) # env) vars logger =
     (case matchVar pmatch name val patterns logger of
        (True, logger') \<Rightarrow> varsLoop pmatch patterns env (vars(name \<mapsto> val)) logger'
      | (False, logger') \<Rightarrow> varsLoop pmatch patterns env vars logger')"

definition VarsToRedact ::
  "(string \<Rightarrow> string \<Rightarrow> bool option) \<Rightarrow> warning list \<Rightarrow> string list \<Rightarrow> (string \<times> string) list
     \<Rightarrow> (string \<rightharpoonup> string) \<times> warning list" where
  "VarsToRedact pmatch logger patterns environment =
     varsLoop pmatch patterns environment Map.empty logger"

text \<open>
  A matcher for patterns without metacharacters, which \<open>path.Match\<close> matches against the
  equal name only; used in the examples.
\<close>

definition literalMatch :: "string \<Rightarrow> string \<Rightarrow> bool option" where
  "literalMatch pattern name = Some (pattern = name)"

subsection \<open>Notions used in the statements and proofs\<close>

text \<open>
  A list of ranges is a \<open>chain\<close> when every range is non-empty and ends at or before the
  start of the next one.  A position is \<open>covered\<close> by a list when some range contains
  it, and \<open>linked\<close> when some range contains it and the position before it.
  \<open>mergeBack\<close> is the loop of \<open>mergeOverlaps\<close> as a recursion over the ranges still to
  visit (nearest first), the range at index \<open>j\<close> and the ranges behind it.
\<close>

fun chain :: "subrange list \<Rightarrow> bool" where
  "chain [] = True"
| "chain [r] = (rfrom r < rto r)"
| "chain (r # s # rs) = (rfrom r < rto r \<and> rto r \<le> rfrom s \<and> chain (s # rs))"

definition covered :: "subrange list \<Rightarrow> int \<Rightarrow> bool" where
  "covered rs x = (\<exists>r \<in> set rs. contains r x)"

definition linked :: "subrange list \<Rightarrow> int \<Rightarrow> bool" where
  "linked rs x = (\<exists>r \<in> set rs. rfrom r < x \<and> x < rto r)"


fun mergeBack :: "subrange list \<Rightarrow> subrange \<Rightarrow> subrange list \<Rightarrow> subrange list" where
  "mergeBack [] acc out = acc # out"
| "mergeBack (r # rest) acc out =
     (if overlap acc r then mergeBack rest (union acc r) out
      else mergeBack rest r (acc # out))"

text \<open>
  \<open>pieces sb C x cs\<close> is what the sink must receive for the buffer bytes \<open>cs\<close>, the first
  of them at position \<open>x\<close>, when \<open>C\<close> holds the ranges to redact: a byte that is not
  covered passes through, a covered position that is not linked to the one before it
  starts a redacted span and yields the marker, every other covered position yields
  nothing.
\<close>

fun pieces :: "string \<Rightarrow> subrange list \<Rightarrow> int \<Rightarrow> string \<Rightarrow> string" where
  "pieces sb C x [] = []"
| "pieces sb C x (c # cs) =
     (if covered C x then (if linked C x then [] else sb) else [c]) @ pieces sb C (x + 1) cs"

text \<open>The bytes of \<open>b[lo:hi]\<close> when the bounds are in range.\<close>

definition seg :: "string \<Rightarrow> int \<Rightarrow> int \<Rightarrow> string" where
  "seg b lo hi = take (nat (hi - lo)) (drop (nat lo) b)"

text \<open>
  The scan of \<open>Write\<close> over a string, on the partial matches alone: \<open>a\<close> is the position of
  the first byte; the result is the surviving partial matches and the ranges completed.
\<close>

fun scanStream ::
  "(char \<Rightarrow> string list) \<Rightarrow> partialMatch list \<Rightarrow> int \<Rightarrow> string
     \<Rightarrow> (partialMatch list \<times> subrange list) option" where
  "scanStream idx P a [] = Some (P, [])"
| "scanStream idx P a (c # cs) =
     (case scanPartial c a P [] [] of
        None \<Rightarrow> None
      | Some (nxt, cm) \<Rightarrow>
          (case startMatches a (idx c) nxt cm of
             (P1, N1) \<Rightarrow>
               (case scanStream idx P1 (a + 1) cs of
                  None \<Rightarrow> None
                | Some (P2, N2) \<Rightarrow> Some (P2, N1 @ N2))))"

text \<open>The state conditions that every operation keeps.\<close>

definition pmOK :: "partialMatch \<Rightarrow> bool" where
  "pmOK s = (0 < matched s \<and> matched s < int (length (needle s)))"

definition idxOK :: "(char \<Rightarrow> string list) \<Rightarrow> bool" where
  "idxOK idx = (\<forall>c. \<forall>s \<in> set (idx c). s \<noteq> [] \<and> hd s = c)"

definition inv :: "Redactor \<Rightarrow> bool" where
  "inv r =
     (list_all pmOK (partialMatches r) \<and> nextMatches r = [] \<and>
      chain (completedMatches r) \<and>
      (\<forall>m \<in> set (completedMatches r). 0 < rto m \<and> rto m \<le> int (length (buf r))) \<and>
      idxOK (needlesByFirstByte r) \<and> reliable (dst r))"

text \<open>Moving a range by \<open>k\<close> positions to the right.\<close>

definition shift :: "int \<Rightarrow> subrange \<Rightarrow> subrange" where
  "shift k m = sub m (- k)"

text \<open>
  \<open>tracks d0 sb r s N\<close>: the state \<open>r\<close> is one that a redactor with marker \<open>sb\<close> and
  initial sink \<open>d0\<close> can be in after the stream \<open>s\<close> has been written to it in some
  chunking, \<open>N\<close> being the ranges that the scan has completed on the way.  With \<open>base\<close>
  the position in \<open>s\<close> of the first byte of the buffer: from \<open>base\<close> on the pending ranges
  cover and link the positions that \<open>N\<close> does; the sink has received the pieces of the
  positions before \<open>base\<close>; and every position before \<open>base\<close> that a partial match still
  reaches is inside a range already, so that no later range changes its piece.
\<close>

definition tracks ::
  "sink \<Rightarrow> string \<Rightarrow> Redactor \<Rightarrow> string \<Rightarrow> subrange list \<Rightarrow> bool" where
  "tracks d0 sb r s N =
     (inv r \<and> subst r = sb \<and>
      (\<exists>base.
         0 \<le> base \<and> base = int (length s) - int (length (buf r)) \<and>
         buf r = drop (nat base) s \<and>
         (\<forall>x. 0 \<le> x \<longrightarrow>
            covered (completedMatches r) x = covered N (x + base) \<and>
            linked (completedMatches r) x = linked N (x + base)) \<and>
         received (dst r) = received d0 @ pieces sb N 0 (take (nat base) s) \<and>
         (\<forall>x. flushLimit (int (length s)) (int (length s)) (partialMatches r) \<le> x \<and>
              0 \<le> x \<and> x < base \<longrightarrow> linked N x)))"

text \<open>The needle index that \<open>Reset\<close> builds.\<close>

definition needleIndex :: "string list \<Rightarrow> char \<Rightarrow> string list" where
  "needleIndex needles = foldl addNeedle (\<lambda>c. []) needles"

text \<open>What the sink must have received once the stream \<open>s\<close> has been flushed.\<close>

definition redacted :: "string \<Rightarrow> (char \<Rightarrow> string list) \<Rightarrow> string \<Rightarrow> string" where
  "redacted sb idx s =
     (case scanStream idx [] 0 s of None \<Rightarrow> [] | Some (P, N) \<Rightarrow> pieces sb N 0 s)"

text \<open>
  \<open>tight r\<close>: the flush limit of the retained buffer is not positive, that is, the
  buffer is empty or some partial match reaches back to its first byte or beyond.
\<close>

definition tight :: "Redactor \<Rightarrow> bool" where
  "tight r =
     (flushLimit (int (length (buf r))) (int (length (buf r))) (partialMatches r) \<le> 0)"

section \<open>Properties\<close>

subsection \<open>The overlap example\<close>

text \<open>
  C6.  With the needles \<open>abcdef\<close> and \<open>cdefgh\<close> and the marker \<open>[REDACTED]\<close>, writing
  \<open>xxabcdefghxx\<close> and flushing delivers exactly \<open>xx[REDACTED]xx\<close>: the \<open>Write\<close> accepts
  all twelve bytes, and the sink is written three times (the two pass-through pieces
  and one marker for the union of the two overlapping matches).
\<close>

theorem overlap_example_single_marker:
  "(case Write (New emptySink ''[REDACTED]'' [''abcdef'', ''cdefgh'']) ''xxabcdefghxx'' of
      Some (r1, n, None) \<Rightarrow>
        n = 12 \<and>
        (case Flush r1 of
           Some (r2, None) \<Rightarrow>
             received (dst r2) = ''xx[REDACTED]xx'' \<and> calls (dst r2) = 3
         | _ \<Rightarrow> False)
    | _ \<Rightarrow> False)"
  by code_simp

subsection \<open>Errors of the sink\<close>

lemma compact_dst: "compact r bufidx dn = Some r' \<Longrightarrow> dst r' = dst r"
  by (auto simp: compact_def Let_def split: if_splits)




subsection \<open>Flushing twice\<close>

lemma compact_at_end:
  "int (length (buf r)) \<le> bufidx \<Longrightarrow>
     compact r bufidx dn = Some (r\<lparr>buf := [], completedMatches := []\<rparr>)"
  by (simp add: compact_def)

lemma flushUpTo_whole_buffer:
  assumes "flushUpTo r (int (length (buf r))) = Some (r', None)"
  shows "buf r' = [] \<and> partialMatches r' = partialMatches r"
proof (cases "buf r = []")
  case True
  with assms show ?thesis
    by (simp add: flushUpTo_def)
next
  case False
  with assms show ?thesis
    by (auto simp: flushUpTo_def compact_at_end
        split: if_splits option.splits sum.splits prod.splits)
qed

text \<open>
  C9.  After a \<open>Flush\<close> that succeeded, a second \<open>Flush\<close> returns no error and leaves the
  whole state as it is, the sink included: nothing is received and the sink is not
  called.
\<close>

theorem Flush_twice:
  "Flush r = Some (r1, None) \<Longrightarrow> Flush r1 = Some (r1, None)"
proof -
  assume a: "Flush r = Some (r1, None)"
  then have "buf r1 = [] \<and> partialMatches r1 = []"
    using flushUpTo_whole_buffer [of "r\<lparr>partialMatches := []\<rparr>" r1]
    by (simp add: Flush_def)
  then show ?thesis
    by (simp add: Flush_def flushUpTo_def)
qed

theorem Flush_twice_witness:
  "Flush \<lparr>subst = ''[R]'', needlesByFirstByte = (\<lambda>c. []), dst = emptySink,
          buf = ''sek'', partialMatches = [\<lparr>needle = ''sekret'', matched = 3\<rparr>],
          nextMatches = [], completedMatches = []\<rparr>
   = Some (\<lparr>subst = ''[R]'', needlesByFirstByte = (\<lambda>c. []),
            dst = \<lparr>received = ''sek'', calls = 1, plan = []\<rparr>,
            buf = [], partialMatches = [], nextMatches = [], completedMatches = []\<rparr>, None)
   \<and> Flush \<lparr>subst = ''[R]'', needlesByFirstByte = (\<lambda>c. []),
            dst = \<lparr>received = ''sek'', calls = 1, plan = []\<rparr>,
            buf = [], partialMatches = [], nextMatches = [], completedMatches = []\<rparr>
   = Some (\<lparr>subst = ''[R]'', needlesByFirstByte = (\<lambda>c. []),
            dst = \<lparr>received = ''sek'', calls = 1, plan = []\<rparr>,
            buf = [], partialMatches = [], nextMatches = [], completedMatches = []\<rparr>, None)"
proof -
  let ?r = "\<lparr>subst = ''[R]'', needlesByFirstByte = (\<lambda>c. []), dst = emptySink,
          buf = ''sek'', partialMatches = [\<lparr>needle = ''sekret'', matched = 3\<rparr>],
          nextMatches = [], completedMatches = []\<rparr>"
  let ?r1 = "\<lparr>subst = ''[R]'', needlesByFirstByte = (\<lambda>c. []),
            dst = \<lparr>received = ''sek'', calls = 1, plan = []\<rparr>,
            buf = [], partialMatches = [], nextMatches = [], completedMatches = []\<rparr>"
  have h: "Flush ?r = Some (?r1, None)"
    by (simp add: Flush_def flushUpTo_def slice_def sink_write_def compact_def emptySink_def)
  from Flush_twice [OF h] h show ?thesis
    by simp
qed

subsection \<open>The byte count of a failed Write\<close>

text \<open>
  C3 (the count on an error).  Needles \<open>sekret\<close> and \<open>ekxyz\<close>; the sink fails on its
  first call.  \<open>Write "sek"\<close> keeps all three bytes back and does not call the sink.
  \<open>Write "x"\<close> then has \<open>prevBufLen = 3\<close> and flush limit \<open>1\<close>; the sink fails on the
  byte \<open>s\<close>, and \<open>Write\<close> returns the sink's error with the count \<open>1 - 3 = -2\<close>.
\<close>

theorem Write_error_count_negative:
  "(case Write (New \<lparr>received = [], calls = 0, plan = [Some (0, SinkFault 7)]\<rparr>
                  ''[REDACTED]'' [''sekret'', ''ekxyz'']) ''sek'' of
      Some (r1, n1, None) \<Rightarrow>
        n1 = 3 \<and> calls (dst r1) = 0 \<and>
        (case Write r1 ''x'' of
           Some (r2, n2, e) \<Rightarrow> n2 = - 2 \<and> e = Some (SinkFault 7)
         | None \<Rightarrow> False)
    | _ \<Rightarrow> False)"
  by code_simp

subsection \<open>VarsToRedact\<close>

lemma matchVar_fst:
  "fst (matchVar pmatch name val ps logger) =
     ((\<exists>p \<in> set ps. pmatch p name = Some True) \<and> RedactLengthMin \<le> length val)"
proof (induction ps arbitrary: logger)
  case Nil
  then show ?case by simp
next
  case (Cons p ps)
  show ?case
  proof (cases "pmatch p name")
    case None
    then show ?thesis using Cons.IH by simp
  next
    case (Some b)
    then show ?thesis using Cons.IH by (cases b) auto
  qed
qed


lemma matchVar_BelowMinimum:
  "BelowMinimum n k \<in> set (snd (matchVar pmatch name val ps logger)) \<longleftrightarrow>
     BelowMinimum n k \<in> set logger \<or>
     (n = name \<and> k = RedactLengthMin \<and> 0 < length val \<and> length val < RedactLengthMin \<and>
      (\<exists>p \<in> set ps. pmatch p name = Some True))"
proof (induction ps arbitrary: logger)
  case Nil
  then show ?case by simp
next
  case (Cons p ps)
  show ?case
  proof (cases "pmatch p name")
    case None
    then show ?thesis using Cons.IH by simp
  next
    case (Some b)
    then show ?thesis using Cons.IH by (cases b) auto
  qed
qed

lemma varsLoop_step:
  "varsLoop pmatch patterns ((n, v) # env) vars logger =
     varsLoop pmatch patterns env
       (if fst (matchVar pmatch n v patterns logger) then vars(n \<mapsto> v) else vars)
       (snd (matchVar pmatch n v patterns logger))"
  by (cases "matchVar pmatch n v patterns logger") (simp split: bool.splits)

lemma varsLoop_fst:
  "distinct (map fst env) \<Longrightarrow>
   fst (varsLoop pmatch patterns env vars logger) name =
     (case map_of env name of
        None \<Rightarrow> vars name
      | Some val \<Rightarrow>
          if (\<exists>p \<in> set patterns. pmatch p name = Some True) \<and> RedactLengthMin \<le> length val
          then Some val else vars name)"
proof (induction env arbitrary: vars logger)
  case Nil
  then show ?case by simp
next
  case (Cons a env)
  obtain n v where a: "a = (n, v)" by (cases a)
  from Cons.prems a have d: "distinct (map fst env)" and nin: "n \<notin> fst ` set env"
    by auto
  from nin have none: "map_of env n = None"
    by (simp add: map_of_eq_None_iff)
  show ?case
    unfolding a varsLoop_step Cons.IH [OF d] matchVar_fst
    using none by (simp split: option.splits)
qed

lemma varsLoop_BelowMinimum:
  "BelowMinimum n k \<in> set (snd (varsLoop pmatch patterns env vars logger)) \<longleftrightarrow>
     BelowMinimum n k \<in> set logger \<or>
     (k = RedactLengthMin \<and>
      (\<exists>val. (n, val) \<in> set env \<and> 0 < length val \<and> length val < RedactLengthMin \<and>
        (\<exists>p \<in> set patterns. pmatch p n = Some True)))"
proof (induction env arbitrary: vars logger)
  case Nil
  then show ?case by simp
next
  case (Cons a env)
  obtain n' v where a: "a = (n', v)" by (cases a)
  show ?case
    unfolding a varsLoop_step Cons.IH matchVar_BelowMinimum
    by auto
qed

text \<open>
  C10 (as amended).  For an environment with distinct names, the result of
  \<open>VarsToRedact\<close> holds exactly the pairs whose name matches at least one pattern and
  whose value has at least \<open>RedactLengthMin = 6\<close> bytes.  A warning that a value is
  below the minimum is logged exactly for the matched variables whose value is shorter
  than the minimum and not empty: an empty value is skipped without a warning.
\<close>

theorem VarsToRedact_result:
  assumes "distinct (map fst environment)"
  shows "fst (VarsToRedact pmatch logger patterns environment) =
           (\<lambda>name. case map_of environment name of
                      None \<Rightarrow> None
                    | Some val \<Rightarrow>
                        if (\<exists>p \<in> set patterns. pmatch p name = Some True) \<and>
                           RedactLengthMin \<le> length val
                        then Some val else None)
         \<and> RedactLengthMin = 6
         \<and> (\<forall>name k. BelowMinimum name k \<in> set (snd (VarsToRedact pmatch [] patterns environment)) \<longleftrightarrow>
               k = RedactLengthMin \<and>
               (\<exists>val. map_of environment name = Some val \<and>
                  (\<exists>p \<in> set patterns. pmatch p name = Some True) \<and>
                  0 < length val \<and> length val < RedactLengthMin))"
proof -
  have 1: "fst (VarsToRedact pmatch logger patterns environment) =
           (\<lambda>name. case map_of environment name of
                      None \<Rightarrow> None
                    | Some val \<Rightarrow>
                        if (\<exists>p \<in> set patterns. pmatch p name = Some True) \<and>
                           RedactLengthMin \<le> length val
                        then Some val else None)"
    unfolding VarsToRedact_def using varsLoop_fst [OF assms] by (intro ext) simp
  have 2: "\<And>name val. (name, val) \<in> set environment \<longleftrightarrow> map_of environment name = Some val"
    using assms by simp
  have 3: "\<forall>name k. BelowMinimum name k \<in> set (snd (VarsToRedact pmatch [] patterns environment)) \<longleftrightarrow>
               k = RedactLengthMin \<and>
               (\<exists>val. map_of environment name = Some val \<and>
                  (\<exists>p \<in> set patterns. pmatch p name = Some True) \<and>
                  0 < length val \<and> length val < RedactLengthMin)"
    unfolding VarsToRedact_def varsLoop_BelowMinimum 2 by auto
  from 1 3 show ?thesis by (simp add: RedactLengthMin_def)
qed

theorem VarsToRedact_result_witness:
  "distinct (map fst [(''API_TOKEN'', ''none''), (''DB_KEY'', ''hunter22''), (''HOME'', ''/root/home'')])
   \<and> fst (VarsToRedact literalMatch [] [''API_TOKEN'', ''DB_KEY'']
        [(''API_TOKEN'', ''none''), (''DB_KEY'', ''hunter22''), (''HOME'', ''/root/home'')]) ''DB_KEY'' = Some ''hunter22''
   \<and> fst (VarsToRedact literalMatch [] [''API_TOKEN'', ''DB_KEY'']
        [(''API_TOKEN'', ''none''), (''DB_KEY'', ''hunter22''), (''HOME'', ''/root/home'')]) ''API_TOKEN'' = None
   \<and> fst (VarsToRedact literalMatch [] [''API_TOKEN'', ''DB_KEY'']
        [(''API_TOKEN'', ''none''), (''DB_KEY'', ''hunter22''), (''HOME'', ''/root/home'')]) ''HOME'' = None
   \<and> BelowMinimum ''API_TOKEN'' 6 \<in> set (snd (VarsToRedact literalMatch [] [''API_TOKEN'', ''DB_KEY'']
        [(''API_TOKEN'', ''none''), (''DB_KEY'', ''hunter22''), (''HOME'', ''/root/home'')]))"
proof -
  have d: "distinct (map fst [(''API_TOKEN'', ''none''), (''DB_KEY'', ''hunter22''), (''HOME'', ''/root/home'')])"
    by simp
  from VarsToRedact_result [OF d, of literalMatch "[]" "[''API_TOKEN'', ''DB_KEY'']"] d
  show ?thesis
    by (simp add: literalMatch_def RedactLengthMin_def)
qed

text \<open>
  An empty value gets no warning: the variable matches, is left out, and nothing is
  logged.
\<close>

theorem VarsToRedact_silent_counterexample:
  "literalMatch ''API_TOKEN'' ''API_TOKEN'' = Some True
   \<and> VarsToRedact literalMatch [] [''API_TOKEN''] [(''API_TOKEN'', '''')] = (Map.empty, [])"
  by (simp add: literalMatch_def VarsToRedact_def RedactLengthMin_def)

subsection \<open>mergeOverlaps\<close>

lemma mergeLoop_mergeBack:
  "n \<le> j \<Longrightarrow> j < length rs \<Longrightarrow>
     (case mergeLoop rs j n of (rs', j') \<Rightarrow> drop j' rs') =
       mergeBack (rev (take n rs)) (rs ! j) (drop (Suc j) rs)"
proof (induction n arbitrary: rs j)
  case 0
  then show ?case by (simp add: Cons_nth_drop_Suc)
next
  case (Suc n)
  from Suc.prems have nj: "n < j" and jl: "j < length rs" and nl: "n < length rs"
    by auto
  have tk: "rev (take (Suc n) rs) = rs ! n # rev (take n rs)"
    using nl by (simp add: take_Suc_conv_app_nth)
  show ?case
  proof (cases "overlap (rs ! j) (rs ! n)")
    case True
    let ?rs = "rs[j := union (rs ! j) (rs ! n)]"
    have "(case mergeLoop ?rs j n of (rs', j') \<Rightarrow> drop j' rs') =
       mergeBack (rev (take n ?rs)) (?rs ! j) (drop (Suc j) ?rs)"
      using Suc.IH [of j ?rs] nj jl by simp
    moreover have "take n ?rs = take n rs" using nj by simp
    moreover have "?rs ! j = union (rs ! j) (rs ! n)" using jl by simp
    moreover have "drop (Suc j) ?rs = drop (Suc j) rs" by simp
    ultimately show ?thesis using True tk by simp
  next
    case False
    let ?rs = "rs[j - 1 := rs ! n]"
    have j1: "n \<le> j - 1" "j - 1 < length rs" using nj jl by auto
    have "(case mergeLoop ?rs (j - 1) n of (rs', j') \<Rightarrow> drop j' rs') =
       mergeBack (rev (take n ?rs)) (?rs ! (j - 1)) (drop (Suc (j - 1)) ?rs)"
      using Suc.IH [of "j - 1" ?rs] j1 by simp
    moreover have "take n ?rs = take n rs" using j1 by simp
    moreover have "?rs ! (j - 1) = rs ! n" using j1 by simp
    moreover have "drop (Suc (j - 1)) ?rs = rs ! j # drop (Suc j) rs"
      using nj jl by (simp add: Cons_nth_drop_Suc)
    ultimately show ?thesis using False tk by simp
  qed
qed

lemma mergeOverlaps_mergeBack:
  "mergeOverlaps (rs @ [a]) = mergeBack (rev rs) a []"
proof (cases rs)
  case Nil
  then show ?thesis by (simp add: mergeOverlaps_def)
next
  case (Cons b bs)
  have "(case mergeLoop (rs @ [a]) (length rs) (length rs) of (rs', j') \<Rightarrow> drop j' rs') =
       mergeBack (rev (take (length rs) (rs @ [a]))) ((rs @ [a]) ! length rs)
         (drop (Suc (length rs)) (rs @ [a]))"
    by (rule mergeLoop_mergeBack) simp_all
  then show ?thesis using Cons by (simp add: mergeOverlaps_def)
qed

lemma mergeOverlaps_Nil: "mergeOverlaps [] = []"
  by (simp add: mergeOverlaps_def)


lemma rfrom_union: "rfrom (union a r) = min (rfrom a) (rfrom r)"
  by (simp add: union_def Let_def min_def)

lemma rto_union: "rto (union a r) = max (rto a) (rto r)"
  by (simp add: union_def Let_def max_def)

lemma chain_Cons:
  "chain (a # rs) \<longleftrightarrow> rfrom a < rto a \<and> (rs = [] \<or> rto a \<le> rfrom (hd rs)) \<and> chain rs"
  by (cases rs) auto

lemma not_overlap_before:
  assumes "\<not> overlap a r" "rfrom a < rto a" "rfrom r < rto r" "rto r \<le> rto a"
  shows "rto r \<le> rfrom a"
  using assms unfolding overlap_def contains_def by linarith

lemma mergeBack_chain:
  "chain (acc # out) \<Longrightarrow> \<forall>r \<in> set rest. rfrom r < rto r \<Longrightarrow>
   sorted (map rto (rev rest) @ [rto acc]) \<Longrightarrow> chain (mergeBack rest acc out)"
proof (induction rest arbitrary: acc out)
  case Nil
  then show ?case by simp
next
  case (Cons r rest)
  from Cons.prems(2) have wr: "rfrom r < rto r" and wrest: "\<forall>r \<in> set rest. rfrom r < rto r"
    by auto
  from Cons.prems(1) have wa: "rfrom acc < rto acc"
    by (simp add: chain_Cons)
  from Cons.prems(3) have le: "rto r \<le> rto acc"
    and s1: "sorted (map rto (rev rest) @ [rto r])"
    and s2: "sorted (map rto (rev rest) @ [rto acc])"
    by (auto simp: sorted_append)
  show ?case
  proof (cases "overlap acc r")
    case True
    have "chain (union acc r # out)"
      using Cons.prems(1) wa wr le by (simp add: chain_Cons rfrom_union rto_union)
    moreover have "sorted (map rto (rev rest) @ [rto (union acc r)])"
      using s2 le by (simp add: rto_union)
    ultimately show ?thesis
      using Cons.IH [of "union acc r" out] wrest True by simp
  next
    case False
    have "rto r \<le> rfrom acc"
      using False wa wr le by (rule not_overlap_before)
    then have "chain (r # acc # out)"
      using Cons.prems(1) wr by simp
    then show ?thesis
      using Cons.IH [of r "acc # out"] wrest s1 False by simp
  qed
qed

lemma covered_Cons: "covered (a # rs) x \<longleftrightarrow> (rfrom a \<le> x \<and> x < rto a) \<or> covered rs x"
  by (auto simp: covered_def contains_def)

lemma linked_Cons: "linked (a # rs) x \<longleftrightarrow> (rfrom a < x \<and> x < rto a) \<or> linked rs x"
  by (auto simp: linked_def)

lemma covered_Nil: "covered [] x = False"
  by (simp add: covered_def)

lemma linked_Nil: "linked [] x = False"
  by (simp add: linked_def)

lemma covered_append: "covered (rs @ ss) x \<longleftrightarrow> covered rs x \<or> covered ss x"
  by (auto simp: covered_def)

lemma linked_append: "linked (rs @ ss) x \<longleftrightarrow> linked rs x \<or> linked ss x"
  by (auto simp: linked_def)

lemma union_covers:
  assumes "overlap a r" "rfrom a < rto a" "rfrom r < rto r"
  shows "(rfrom (union a r) \<le> x \<and> x < rto (union a r)) \<longleftrightarrow>
           (rfrom a \<le> x \<and> x < rto a) \<or> (rfrom r \<le> x \<and> x < rto r)"
  using assms unfolding overlap_def contains_def rfrom_union rto_union by auto

lemma union_links:
  assumes "overlap a r" "rfrom a < rto a" "rfrom r < rto r"
  shows "(rfrom (union a r) < x \<and> x < rto (union a r)) \<longleftrightarrow>
           (rfrom a < x \<and> x < rto a) \<or> (rfrom r < x \<and> x < rto r)"
  using assms unfolding overlap_def contains_def rfrom_union rto_union by auto

lemma union_wf: "rfrom a < rto a \<Longrightarrow> rfrom (union a r) < rto (union a r)"
  by (simp add: rfrom_union rto_union)

lemma mergeBack_covered:
  "rfrom acc < rto acc \<Longrightarrow> \<forall>r \<in> set rest. rfrom r < rto r \<Longrightarrow>
   covered (mergeBack rest acc out) x \<longleftrightarrow> covered rest x \<or> covered (acc # out) x"
proof (induction rest arbitrary: acc out)
  case Nil
  then show ?case by (simp add: covered_Nil)
next
  case (Cons r rest)
  from Cons.prems have wr: "rfrom r < rto r" and wrest: "\<forall>r \<in> set rest. rfrom r < rto r"
    by auto
  show ?case
  proof (cases "overlap acc r")
    case True
    then show ?thesis
      using Cons.IH [of "union acc r" out, OF union_wf [OF Cons.prems(1)] wrest]
        union_covers [OF True Cons.prems(1) wr, of x]
      by (auto simp: covered_Cons)
  next
    case False
    then show ?thesis
      using Cons.IH [of r "acc # out", OF wr wrest] by (auto simp: covered_Cons)
  qed
qed

lemma mergeBack_linked:
  "rfrom acc < rto acc \<Longrightarrow> \<forall>r \<in> set rest. rfrom r < rto r \<Longrightarrow>
   linked (mergeBack rest acc out) x \<longleftrightarrow> linked rest x \<or> linked (acc # out) x"
proof (induction rest arbitrary: acc out)
  case Nil
  then show ?case by (simp add: linked_Nil)
next
  case (Cons r rest)
  from Cons.prems have wr: "rfrom r < rto r" and wrest: "\<forall>r \<in> set rest. rfrom r < rto r"
    by auto
  show ?case
  proof (cases "overlap acc r")
    case True
    then show ?thesis
      using Cons.IH [of "union acc r" out, OF union_wf [OF Cons.prems(1)] wrest]
        union_links [OF True Cons.prems(1) wr, of x]
      by (auto simp: linked_Cons)
  next
    case False
    then show ?thesis
      using Cons.IH [of r "acc # out", OF wr wrest] by (auto simp: linked_Cons)
  qed
qed

lemma mergeBack_rto:
  "rto ` set (mergeBack rest acc out) \<subseteq> rto ` (set rest \<union> set (acc # out))"
proof (induction rest arbitrary: acc out)
  case Nil
  then show ?case by simp
next
  case (Cons r rest)
  show ?case
  proof (cases "overlap acc r")
    case True
    have "rto (union acc r) = rto acc \<or> rto (union acc r) = rto r"
      by (auto simp: rto_union max_def)
    then show ?thesis
      using Cons.IH [of "union acc r" out] True by auto
  next
    case False
    then show ?thesis
      using Cons.IH [of r "acc # out"] by auto
  qed
qed


lemma mergeOverlaps_chain:
  assumes "sorted (map rto rs)" "\<forall>r \<in> set rs. rfrom r < rto r"
  shows "chain (mergeOverlaps rs)"
proof (cases rs rule: rev_cases)
  case Nil
  then show ?thesis by (simp add: mergeOverlaps_Nil)
next
  case (snoc ys a)
  with assms show ?thesis
    by (simp add: mergeOverlaps_mergeBack mergeBack_chain rev_map)
qed

lemma mergeOverlaps_covered:
  assumes "\<forall>r \<in> set rs. rfrom r < rto r"
  shows "covered (mergeOverlaps rs) x = covered rs x"
proof (cases rs rule: rev_cases)
  case Nil
  then show ?thesis by (simp add: mergeOverlaps_Nil)
next
  case (snoc ys a)
  have "covered (rev ys) x = covered ys x"
    by (simp add: covered_def)
  with snoc assms show ?thesis
    by (auto simp: mergeOverlaps_mergeBack mergeBack_covered covered_append covered_Cons
        covered_Nil)
qed

lemma mergeOverlaps_linked:
  assumes "\<forall>r \<in> set rs. rfrom r < rto r"
  shows "linked (mergeOverlaps rs) x = linked rs x"
proof (cases rs rule: rev_cases)
  case Nil
  then show ?thesis by (simp add: mergeOverlaps_Nil)
next
  case (snoc ys a)
  have "linked (rev ys) x = linked ys x"
    by (simp add: linked_def)
  with snoc assms show ?thesis
    by (auto simp: mergeOverlaps_mergeBack mergeBack_linked linked_append linked_Cons
        linked_Nil)
qed

lemma mergeOverlaps_rto: "rto ` set (mergeOverlaps rs) \<subseteq> rto ` set rs"
proof (cases rs rule: rev_cases)
  case Nil
  then show ?thesis by (simp add: mergeOverlaps_Nil)
next
  case (snoc ys a)
  then show ?thesis
    using mergeBack_rto [of "rev ys" a "[]"] by (auto simp: mergeOverlaps_mergeBack)
qed


lemma chain_wf: "chain rs \<Longrightarrow> r \<in> set rs \<Longrightarrow> rfrom r < rto r"
  by (induction rs) (auto simp: chain_Cons)

lemma chain_after: "chain (a # rs) \<Longrightarrow> r \<in> set rs \<Longrightarrow> rto a \<le> rfrom r"
proof (induction rs arbitrary: a)
  case Nil
  then show ?case by simp
next
  case (Cons b rs)
  from Cons.prems(1) have ab: "rto a \<le> rfrom b" "rfrom b < rto b" "chain (b # rs)"
    by (simp_all add: chain_Cons)
  show ?case
  proof (cases "r = b")
    case True
    with ab show ?thesis by simp
  next
    case False
    with Cons.prems(2) have "r \<in> set rs" by simp
    with Cons.IH [OF ab(3)] ab show ?thesis by force
  qed
qed


lemma chain_sorted: "chain rs \<Longrightarrow> sorted (map rto rs) \<and> sorted (map rfrom rs)"
proof (induction rs)
  case Nil
  then show ?case by simp
next
  case (Cons a rs)
  have c: "chain rs" using Cons.prems by (simp add: chain_Cons)
  have "\<forall>r \<in> set rs. rto a \<le> rfrom r \<and> rfrom r < rto r"
    using chain_after [OF Cons.prems] chain_wf [OF c] by blast
  moreover have "rfrom a < rto a" using Cons.prems by (simp add: chain_Cons)
  ultimately show ?case using Cons.IH [OF c] by force
qed






subsection \<open>The scan\<close>

lemma scanPartial_acc:
  "scanPartial c a P nxt cm =
     map_option (\<lambda>(x, y). (nxt @ x, cm @ y)) (scanPartial c a P [] [])"
proof (induction P arbitrary: nxt cm)
  case Nil
  then show ?case by simp
next
  case (Cons s P)
  show ?case
    using Cons.IH [of "nxt @ [s\<lparr>matched := matched s + 1\<rparr>]" cm]
      Cons.IH [of nxt "cm @ [\<lparr>rfrom = a - int (length (needle s)) + 1, rto = a + 1\<rparr>]"]
      Cons.IH [of nxt cm]
      Cons.IH [of "[s\<lparr>matched := matched s + 1\<rparr>]" "[]"]
      Cons.IH [of "[]" "[\<lparr>rfrom = a - int (length (needle s)) + 1, rto = a + 1\<rparr>]"]
    by (auto simp: option.map_comp comp_def split_def)
qed

lemma startMatches_acc:
  "startMatches a ns nxt cm =
     (nxt @ fst (startMatches a ns [] []), cm @ snd (startMatches a ns [] []))"
proof (induction ns arbitrary: nxt cm)
  case Nil
  then show ?case by simp
next
  case (Cons s ns)
  show ?case
    using Cons.IH [of "nxt @ [\<lparr>needle = s, matched = 1\<rparr>]" cm]
      Cons.IH [of nxt "cm @ [\<lparr>rfrom = a, rto = a + 1\<rparr>]"]
      Cons.IH [of "[\<lparr>needle = s, matched = 1\<rparr>]" "[]"]
      Cons.IH [of "[]" "[\<lparr>rfrom = a, rto = a + 1\<rparr>]"]
    by auto
qed

lemma scanBytes_scanStream:
  "nextMatches r = [] \<Longrightarrow>
   scanBytes r p n cs =
     (case scanStream (needlesByFirstByte r) (partialMatches r) (n + p) cs of
        None \<Rightarrow> None
      | Some (P', N) \<Rightarrow>
          Some (r\<lparr>partialMatches := P', nextMatches := [],
                  completedMatches := completedMatches r @ N\<rparr>))"
proof (induction cs arbitrary: r n)
  case Nil
  then show ?case by simp
next
  case (Cons c cs)
  show ?case
  proof (cases "scanPartial c (n + p) (partialMatches r) [] []")
    case None
    then show ?thesis
      using Cons.prems scanPartial_acc [of c "n + p" "partialMatches r" "[]" "completedMatches r"]
      by simp
  next
    case (Some a)
    obtain nxt cm where a: "a = (nxt, cm)" by (cases a)
    obtain P1 N1 where st: "startMatches (n + p) (needlesByFirstByte r c) nxt cm = (P1, N1)"
      by (cases "startMatches (n + p) (needlesByFirstByte r c) nxt cm")
    have sp: "scanPartial c (n + p) (partialMatches r) (nextMatches r) (completedMatches r)
        = Some (nxt, completedMatches r @ cm)"
      using Some a Cons.prems
        scanPartial_acc [of c "n + p" "partialMatches r" "[]" "completedMatches r"]
      by simp
    have st': "startMatches (n + p) (needlesByFirstByte r c) nxt (completedMatches r @ cm)
        = (P1, completedMatches r @ N1)"
      using st startMatches_acc [of "n + p" "needlesByFirstByte r c" nxt cm]
        startMatches_acc [of "n + p" "needlesByFirstByte r c" nxt "completedMatches r @ cm"]
      by simp
    let ?r = "r\<lparr>partialMatches := P1, nextMatches := [],
                 completedMatches := completedMatches r @ N1\<rparr>"
    have "scanBytes r p n (c # cs) = scanBytes ?r p (n + 1) cs"
      using sp st' by simp
    also have "\<dots> = (case scanStream (needlesByFirstByte ?r) (partialMatches ?r) (n + 1 + p) cs of
        None \<Rightarrow> None
      | Some (P', N) \<Rightarrow>
          Some (?r\<lparr>partialMatches := P', nextMatches := [],
                  completedMatches := completedMatches ?r @ N\<rparr>))"
      by (rule Cons.IH) simp
    finally show ?thesis
      using Some a st by (simp add: add.commute add.left_commute split: option.splits)
  qed
qed

lemma flushLimit_glb:
  "x \<le> flushLimit l v P \<longleftrightarrow> x \<le> v \<and> (\<forall>s \<in> set P. x \<le> l - matched s)"
  by (induction P arbitrary: v) (auto simp: Let_def)

lemma flushLimit_le: "flushLimit l v P \<le> v"
  using flushLimit_glb [of "flushLimit l v P" l v P] by simp

lemma flushLimit_shift: "flushLimit (l + k) (v + k) P = flushLimit l v P + k"
proof (induction P arbitrary: v)
  case Nil
  then show ?case by simp
next
  case (Cons s P)
  show ?case
    using Cons.IH [of "l - matched s"] Cons.IH [of v]
    by (auto simp: Let_def add_diff_eq diff_add_eq)
qed

lemma flushLimit_Cons_le: "flushLimit a a (s # P) \<le> flushLimit a a P"
proof -
  have "flushLimit a a (s # P) \<le> a \<and> (\<forall>t \<in> set P. flushLimit a a (s # P) \<le> a - matched t)"
    using flushLimit_glb [of "flushLimit a a (s # P)" a a "s # P"] by simp
  then show ?thesis
    by (simp add: flushLimit_glb [of _ a a P])
qed

lemma flushLimit_Cons_le_head: "flushLimit a a (s # P) \<le> a - matched s"
  using flushLimit_glb [of "flushLimit a a (s # P)" a a "s # P"] by simp

lemma scanPartial_total:
  assumes "list_all pmOK P"
  shows "\<exists>nxt cm. scanPartial c a P [] [] = Some (nxt, cm) \<and> list_all pmOK nxt \<and>
           (\<forall>m \<in> set cm. rfrom m < rto m \<and> rto m = a + 1 \<and> flushLimit a a P \<le> rfrom m) \<and>
           (\<forall>s \<in> set nxt. flushLimit a a P \<le> a + 1 - matched s)"
  using assms
proof (induction P)
  case Nil
  then show ?case by simp
next
  case (Cons s P)
  from Cons.prems have oks: "pmOK s" and okP: "list_all pmOK P"
    by simp_all
  from oks have ok: "0 < matched s" "matched s < int (length (needle s))"
    by (simp_all add: pmOK_def)
  from Cons.IH [OF okP] obtain nxt cm where
    ih: "scanPartial c a P [] [] = Some (nxt, cm)" "list_all pmOK nxt"
      "\<forall>m \<in> set cm. rfrom m < rto m \<and> rto m = a + 1 \<and> flushLimit a a P \<le> rfrom m"
      "\<forall>s \<in> set nxt. flushLimit a a P \<le> a + 1 - matched s"
    by blast
  note le = flushLimit_Cons_le [of a s P]
  note les = flushLimit_Cons_le_head [of a s P]
  have cm': "\<forall>m \<in> set cm. rfrom m < rto m \<and> rto m = a + 1 \<and> flushLimit a a (s # P) \<le> rfrom m"
    using ih(3) le by force
  have nxt': "\<forall>t \<in> set nxt. flushLimit a a (s # P) \<le> a + 1 - matched t"
    using ih(4) le by force
  consider (drop) "c \<noteq> needle s ! nat (matched s)"
    | (keep) "c = needle s ! nat (matched s)" "matched s + 1 < int (length (needle s))"
    | (complete) "c = needle s ! nat (matched s)" "\<not> matched s + 1 < int (length (needle s))"
    by blast
  then show ?case
  proof cases
    case drop
    then have "scanPartial c a (s # P) [] [] = Some (nxt, cm)"
      using ok ih(1) by simp
    then show ?thesis using ih(2) cm' nxt' by blast
  next
    case keep
    let ?s = "s\<lparr>matched := matched s + 1\<rparr>"
    have "scanPartial c a (s # P) [] [] = Some (?s # nxt, cm)"
      using ok keep ih(1) scanPartial_acc [of c a P "[?s]" "[]"] by simp
    moreover have "pmOK ?s"
      using ok keep by (simp add: pmOK_def)
    then have "list_all pmOK (?s # nxt)"
      using ih(2) by simp
    moreover have "\<forall>t \<in> set (?s # nxt). flushLimit a a (s # P) \<le> a + 1 - matched t"
      using nxt' les by (simp del: flushLimit.simps)
    ultimately show ?thesis using cm' by blast
  next
    case complete
    let ?m = "\<lparr>rfrom = a - int (length (needle s)) + 1, rto = a + 1\<rparr>"
    have "scanPartial c a (s # P) [] [] = Some (nxt, ?m # cm)"
      using ok complete ih(1) scanPartial_acc [of c a P "[]" "[?m]"] by simp
    moreover have "rfrom ?m < rto ?m \<and> rto ?m = a + 1 \<and> flushLimit a a (s # P) \<le> rfrom ?m"
      using les ok complete by (simp del: flushLimit.simps)
    then have "\<forall>m \<in> set (?m # cm). rfrom m < rto m \<and> rto m = a + 1 \<and>
        flushLimit a a (s # P) \<le> rfrom m"
      using cm' by (auto simp del: flushLimit.simps)
    ultimately show ?thesis using ih(2) nxt' by blast
  qed
qed

lemma startMatches_props:
  assumes "\<forall>s \<in> set ns. s \<noteq> []"
  shows "list_all pmOK (fst (startMatches a ns [] [])) \<and>
         (\<forall>s \<in> set (fst (startMatches a ns [] [])). matched s = 1) \<and>
         (\<forall>m \<in> set (snd (startMatches a ns [] [])). rfrom m = a \<and> rto m = a + 1)"
  using assms
proof (induction ns)
  case Nil
  then show ?case by simp
next
  case (Cons s ns)
  then have ih: "list_all pmOK (fst (startMatches a ns [] []))"
      "\<forall>s \<in> set (fst (startMatches a ns [] [])). matched s = 1"
      "\<forall>m \<in> set (snd (startMatches a ns [] [])). rfrom m = a \<and> rto m = a + 1"
    and ne: "s \<noteq> []"
    by simp_all
  show ?case
  proof (cases "length s = 1")
    case True
    then show ?thesis
      using ih startMatches_acc [of a ns "[]" "[\<lparr>rfrom = a, rto = a + 1\<rparr>]"] by simp
  next
    case False
    with ne have "1 < length s" by (cases s) auto
    then have "pmOK \<lparr>needle = s, matched = 1\<rparr>"
      by (simp add: pmOK_def)
    then show ?thesis
      using False ih startMatches_acc [of a ns "[\<lparr>needle = s, matched = 1\<rparr>]" "[]"]
      by simp
  qed
qed

declare flushLimit.simps [simp del]

lemma sorted_const: "\<forall>x \<in> set xs. f x = (k::int) \<Longrightarrow> sorted (map f xs)"
  by (induction xs) auto

lemma scanStream_total:
  assumes "list_all pmOK P" and "idxOK idx"
  shows "\<exists>P' N. scanStream idx P a cs = Some (P', N) \<and> list_all pmOK P' \<and>
           (\<forall>m \<in> set N. rfrom m < rto m \<and> a < rto m \<and> rto m \<le> a + int (length cs) \<and>
                         flushLimit a a P \<le> rfrom m) \<and>
           sorted (map rto N) \<and>
           flushLimit a a P \<le> flushLimit (a + int (length cs)) (a + int (length cs)) P'"
  using assms(1)
proof (induction cs arbitrary: P a)
  case Nil
  then show ?case by simp
next
  case (Cons c cs)
  from scanPartial_total [OF Cons.prems, of c a] obtain nxt cm where
    sp: "scanPartial c a P [] [] = Some (nxt, cm)" "list_all pmOK nxt"
      "\<forall>m \<in> set cm. rfrom m < rto m \<and> rto m = a + 1 \<and> flushLimit a a P \<le> rfrom m"
      "\<forall>s \<in> set nxt. flushLimit a a P \<le> a + 1 - matched s"
    by blast
  have ne: "\<forall>s \<in> set (idx c). s \<noteq> []"
    using assms(2) by (simp add: idxOK_def)
  note sm = startMatches_props [OF ne, of a]
  let ?new = "fst (startMatches a (idx c) [] [])"
  let ?cm2 = "snd (startMatches a (idx c) [] [])"
  let ?P1 = "nxt @ ?new"
  let ?N1 = "cm @ ?cm2"
  have st: "startMatches a (idx c) nxt cm = (?P1, ?N1)"
    using startMatches_acc [of a "idx c" nxt cm] by simp
  have lim_a: "flushLimit a a P \<le> a"
    by (rule flushLimit_le)
  have okP1: "list_all pmOK ?P1"
    using sp(2) sm by simp
  have lim1: "flushLimit a a P \<le> flushLimit (a + 1) (a + 1) ?P1"
  proof -
    have "\<forall>s \<in> set ?P1. flushLimit a a P \<le> a + 1 - matched s"
      using sp(4) sm lim_a by auto
    then show ?thesis
      using lim_a by (simp add: flushLimit_glb)
  qed
  have N1: "\<forall>m \<in> set ?N1. rfrom m < rto m \<and> rto m = a + 1 \<and> flushLimit a a P \<le> rfrom m"
    using sp(3) sm lim_a by auto
  from Cons.IH [OF okP1, of "a + 1"] obtain P2 N2 where
    ih: "scanStream idx ?P1 (a + 1) cs = Some (P2, N2)" "list_all pmOK P2"
      "\<forall>m \<in> set N2. rfrom m < rto m \<and> a + 1 < rto m \<and> rto m \<le> a + 1 + int (length cs) \<and>
                         flushLimit (a + 1) (a + 1) ?P1 \<le> rfrom m"
      "sorted (map rto N2)"
      "flushLimit (a + 1) (a + 1) ?P1
         \<le> flushLimit (a + 1 + int (length cs)) (a + 1 + int (length cs)) P2"
    by blast
  have res: "scanStream idx P a (c # cs) = Some (P2, ?N1 @ N2)"
    using sp(1) st ih(1) by simp
  have all: "\<forall>m \<in> set (?N1 @ N2). rfrom m < rto m \<and> a < rto m \<and>
        rto m \<le> a + int (length (c # cs)) \<and> flushLimit a a P \<le> rfrom m"
    using N1 ih(3) lim1 by auto
  have "sorted (map rto ?N1)"
    using N1 by (intro sorted_const [of _ _ "a + 1"]) blast
  then have srt: "sorted (map rto (?N1 @ N2))"
    using ih(4) N1 ih(3) by (fastforce simp: sorted_append)
  have lim2: "flushLimit a a P
      \<le> flushLimit (a + int (length (c # cs))) (a + int (length (c # cs))) P2"
  proof -
    have "a + int (length (c # cs)) = a + 1 + int (length cs)"
      by simp
    then show ?thesis
      using lim1 ih(5) by (metis order_trans)
  qed
  from res ih(2) all srt lim2 show ?case
    by blast
qed

lemma scanStream_append:
  "scanStream idx P a (cs @ ds) =
     (case scanStream idx P a cs of
        None \<Rightarrow> None
      | Some (P1, N1) \<Rightarrow>
          (case scanStream idx P1 (a + int (length cs)) ds of
             None \<Rightarrow> None
           | Some (P2, N2) \<Rightarrow> Some (P2, N1 @ N2)))"
proof (induction cs arbitrary: P a)
  case Nil
  then show ?case by (simp split: option.splits)
next
  case (Cons c cs)
  have e: "a + int (length (c # cs)) = a + 1 + int (length cs)"
    by simp
  show ?case
    unfolding e by (simp add: Cons.IH split: option.splits prod.splits)
qed

lemma scanPartial_shift:
  "scanPartial c (a + k) P nxt (map (shift k) cm) =
     map_option (\<lambda>(x, y). (x, map (shift k) y)) (scanPartial c a P nxt cm)"
proof (induction P arbitrary: nxt cm)
  case Nil
  then show ?case by simp
next
  case (Cons s P)
  let ?m = "\<lparr>rfrom = a - int (length (needle s)) + 1, rto = a + 1\<rparr>"
  have "map (shift k) cm @ [\<lparr>rfrom = a + k - int (length (needle s)) + 1, rto = a + k + 1\<rparr>]
      = map (shift k) (cm @ [?m])"
    by (simp add: shift_def sub_def)
  then show ?case
    using Cons.IH [of nxt cm] Cons.IH [of "nxt @ [s\<lparr>matched := matched s + 1\<rparr>]" cm]
      Cons.IH [of nxt "cm @ [?m]"]
    by auto
qed

lemma startMatches_shift:
  "startMatches (a + k) ns nxt (map (shift k) cm) =
     (case startMatches a ns nxt cm of (x, y) \<Rightarrow> (x, map (shift k) y))"
proof (induction ns arbitrary: nxt cm)
  case Nil
  then show ?case by simp
next
  case (Cons s ns)
  have "map (shift k) cm @ [\<lparr>rfrom = a + k, rto = a + k + 1\<rparr>]
      = map (shift k) (cm @ [\<lparr>rfrom = a, rto = a + 1\<rparr>])"
    by (simp add: shift_def sub_def)
  then show ?case
    using Cons.IH [of nxt "cm @ [\<lparr>rfrom = a, rto = a + 1\<rparr>]"]
      Cons.IH [of "nxt @ [\<lparr>needle = s, matched = 1\<rparr>]" cm]
    by simp
qed

lemma scanStream_shift:
  "scanStream idx P (a + k) cs =
     map_option (\<lambda>(P', N). (P', map (shift k) N)) (scanStream idx P a cs)"
proof (induction cs arbitrary: P a)
  case Nil
  then show ?case by simp
next
  case (Cons c cs)
  show ?case
  proof (cases "scanPartial c a P [] []")
    case None
    then show ?thesis
      using scanPartial_shift [of c a k P "[]" "[]"] by simp
  next
    case (Some x)
    obtain nxt cm where x: "x = (nxt, cm)" by (cases x)
    obtain P1 N1 where st: "startMatches a (idx c) nxt cm = (P1, N1)"
      by (cases "startMatches a (idx c) nxt cm")
    have 1: "scanPartial c (a + k) P [] [] = Some (nxt, map (shift k) cm)"
      using scanPartial_shift [of c a k P "[]" "[]"] Some x by simp
    have 2: "startMatches (a + k) (idx c) nxt (map (shift k) cm) = (P1, map (shift k) N1)"
      using startMatches_shift [of a k "idx c" nxt cm] st by simp
    have 3: "scanStream idx P1 (a + k + 1) cs =
        map_option (\<lambda>(P', N). (P', map (shift k) N)) (scanStream idx P1 (a + 1) cs)"
      using Cons.IH [of P1 "a + 1"] by (simp add: add.assoc add.commute add.left_commute)
    show ?thesis
      using Some x st 1 2 3 by (simp split: option.splits)
  qed
qed

subsection \<open>pieces and segments\<close>

lemma linked_covered: "linked C x \<Longrightarrow> covered C x"
  unfolding linked_def covered_def contains_def by (meson less_imp_le)

lemma pieces_append:
  "pieces sb C x (xs @ ys) = pieces sb C x xs @ pieces sb C (x + int (length xs)) ys"
proof (induction xs arbitrary: x)
  case Nil
  then show ?case by simp
next
  case (Cons c xs)
  show ?case using Cons.IH [of "x + 1"] by (simp add: add.assoc)
qed

lemma pieces_cong:
  "(\<And>y. x \<le> y \<Longrightarrow> y < x + int (length cs) \<Longrightarrow>
        covered C y = covered C' y \<and> linked C y = linked C' y) \<Longrightarrow>
   pieces sb C x cs = pieces sb C' x cs"
proof (induction cs arbitrary: x)
  case Nil
  then show ?case by simp
next
  case (Cons c cs)
  have 1: "covered C x = covered C' x \<and> linked C x = linked C' x"
    using Cons.prems [of x] by simp
  have 2: "pieces sb C (x + 1) cs = pieces sb C' (x + 1) cs"
  proof (rule Cons.IH)
    fix y
    assume "x + 1 \<le> y" "y < x + 1 + int (length cs)"
    then show "covered C y = covered C' y \<and> linked C y = linked C' y"
      using Cons.prems [of y] by simp
  qed
  from 1 2 show ?case by simp
qed

lemma pieces_plain:
  "(\<And>y. x \<le> y \<Longrightarrow> y < x + int (length cs) \<Longrightarrow> \<not> covered C y) \<Longrightarrow>
   pieces sb C x cs = cs"
proof (induction cs arbitrary: x)
  case Nil
  then show ?case by simp
next
  case (Cons c cs)
  have 1: "\<not> covered C x"
    using Cons.prems [of x] by simp
  have 2: "pieces sb C (x + 1) cs = cs"
  proof (rule Cons.IH)
    fix y
    assume "x + 1 \<le> y" "y < x + 1 + int (length cs)"
    then show "\<not> covered C y"
      using Cons.prems [of y] by simp
  qed
  from 1 2 show ?case by simp
qed

lemma pieces_hidden:
  "(\<And>y. x \<le> y \<Longrightarrow> y < x + int (length cs) \<Longrightarrow> linked C y) \<Longrightarrow>
   pieces sb C x cs = []"
proof (induction cs arbitrary: x)
  case Nil
  then show ?case by simp
next
  case (Cons c cs)
  have 1: "linked C x"
    using Cons.prems [of x] by simp
  have 2: "pieces sb C (x + 1) cs = []"
  proof (rule Cons.IH)
    fix y
    assume "x + 1 \<le> y" "y < x + 1 + int (length cs)"
    then show "linked C y"
      using Cons.prems [of y] by simp
  qed
  from 1 2 linked_covered [OF 1] show ?case by simp
qed

lemma pieces_marker:
  assumes "cs \<noteq> []" "covered C x" "\<not> linked C x"
    and "\<And>y. x < y \<Longrightarrow> y < x + int (length cs) \<Longrightarrow> linked C y"
  shows "pieces sb C x cs = sb"
proof -
  obtain c cs' where cs: "cs = c # cs'"
    using assms(1) by (cases cs) auto
  have "pieces sb C (x + 1) cs' = []"
  proof (rule pieces_hidden)
    fix y
    assume "x + 1 \<le> y" "y < x + 1 + int (length cs')"
    then show "linked C y"
      using assms(4) [of y] cs by simp
  qed
  then show ?thesis
    using cs assms(2,3) by simp
qed

lemma length_seg:
  "0 \<le> lo \<Longrightarrow> lo \<le> hi \<Longrightarrow> hi \<le> int (length b) \<Longrightarrow> int (length (seg b lo hi)) = hi - lo"
  by (simp add: seg_def)

lemma seg_append:
  assumes "0 \<le> lo" "lo \<le> mid" "mid \<le> hi"
  shows "seg b lo hi = seg b lo mid @ seg b mid hi"
proof -
  have 1: "nat (hi - lo) = nat (mid - lo) + nat (hi - mid)"
    using assms by simp
  have 2: "drop (nat (mid - lo)) (drop (nat lo) b) = drop (nat mid) b"
    using assms by (simp add: nat_diff_distrib nat_mono)
  show ?thesis
    unfolding seg_def 1 take_add 2 ..
qed

lemma seg_empty: "seg b lo lo = []"
  by (simp add: seg_def)

lemma slice_seg:
  "0 \<le> lo \<Longrightarrow> lo \<le> hi \<Longrightarrow> hi \<le> int (length b) \<Longrightarrow> slice b lo hi = Some (seg b lo hi)"
  by (simp add: slice_def seg_def)

lemma seg_take: "seg b 0 hi = take (nat hi) b"
  by (simp add: seg_def)

lemma seg_drop: "seg b lo (int (length b)) = drop (nat lo) b"
  by (simp add: seg_def)

subsection \<open>A sink that does not fail\<close>

lemma sink_write_reliable:
  assumes "reliable d"
  shows "\<exists>d'. sink_write d p = (d', None) \<and> received d' = received d @ p \<and> reliable d'"
proof (cases "plan d")
  case Nil
  then show ?thesis
    using assms by (simp add: sink_write_def reliable_def)
next
  case (Cons a rest)
  with assms have "a = None" "list_all (\<lambda>a. a = None) rest"
    by (simp_all add: reliable_def)
  with Cons show ?thesis
    by (simp add: sink_write_def reliable_def)
qed

subsection \<open>The loop of flushUpTo over the completed ranges\<close>

lemma later_ranges_miss:
  assumes "\<forall>m \<in> set ms. k \<le> rfrom m" "y < k"
  shows "\<not> covered ms y \<and> \<not> linked ms y"
  using assms unfolding covered_def linked_def contains_def by fastforce

lemma earlier_ranges_miss:
  assumes "\<forall>m \<in> set ms. rto m \<le> k" "k \<le> y"
  shows "\<not> covered ms y \<and> \<not> linked ms y"
  using assms unfolding covered_def linked_def contains_def by fastforce

lemma pieces_before_head:
  assumes "chain (m # ms)" "0 \<le> b" "b \<le> rfrom m" "rto m \<le> int (length B)"
  shows "pieces sb (m # ms) b (seg B b (rfrom m)) = seg B b (rfrom m)"
proof (rule pieces_plain)
  fix y
  assume y: "b \<le> y" "y < b + int (length (seg B b (rfrom m)))"
  have wf: "rfrom m < rto m" using assms(1) by (simp add: chain_Cons)
  have "int (length (seg B b (rfrom m))) = rfrom m - b"
    using assms wf by (intro length_seg) simp_all
  with y have lt: "y < rfrom m" by simp
  have "\<forall>m' \<in> set ms. rto m \<le> rfrom m'"
    using chain_after [OF assms(1)] by blast
  then have "\<not> covered ms y"
    using later_ranges_miss [of ms "rto m" y] lt wf by simp
  then show "\<not> covered (m # ms) y"
    using lt by (simp add: covered_Cons)
qed

lemma pieces_head_range:
  assumes "chain (m # ms)" "0 \<le> rfrom m" "rto m \<le> int (length B)"
  shows "pieces sb (m # ms) (rfrom m) (seg B (rfrom m) (rto m)) = sb"
proof (rule pieces_marker)
  have wf: "rfrom m < rto m" using assms(1) by (simp add: chain_Cons)
  have len: "int (length (seg B (rfrom m) (rto m))) = rto m - rfrom m"
    using assms wf by (intro length_seg) simp_all
  then show "seg B (rfrom m) (rto m) \<noteq> []"
    using wf by auto
  show "covered (m # ms) (rfrom m)"
    using wf by (simp add: covered_Cons)
  have later: "\<forall>m' \<in> set ms. rto m \<le> rfrom m'"
    using chain_after [OF assms(1)] by blast
  have "\<not> linked ms (rfrom m)"
    using later_ranges_miss [OF later, of "rfrom m"] wf by simp
  then show "\<not> linked (m # ms) (rfrom m)"
    by (simp add: linked_Cons)
  fix y
  assume "rfrom m < y" "y < rfrom m + int (length (seg B (rfrom m) (rto m)))"
  then show "linked (m # ms) y"
    using len by (simp add: linked_Cons)
qed

lemma pieces_inside_head:
  assumes "rfrom m < 0" "0 < rto m" "rto m \<le> int (length B)"
  shows "pieces sb (m # ms) 0 (seg B 0 (rto m)) = []"
proof (rule pieces_hidden)
  have len: "int (length (seg B 0 (rto m))) = rto m - 0"
    using assms by (intro length_seg) simp_all
  fix y
  assume "0 \<le> y" "y < 0 + int (length (seg B 0 (rto m)))"
  then show "linked (m # ms) y"
    using len assms(1) by (simp add: linked_Cons)
qed

lemma flush_one:
  assumes ch: "chain (m # ms)" and bd: "0 < rto m" "rto m \<le> int (length B)"
    and rel: "reliable d" and b: "0 \<le> b" "b \<le> rfrom m \<or> b = 0" and lt: "rfrom m < limit"
  shows "\<exists>d1. flushRanges sb B limit (m # ms) ri d b dn
              = flushRanges sb B limit ms (ri + 1) d1 (rto m) ri
            \<and> reliable d1
            \<and> received d1 = received d @ pieces sb (m # ms) b (seg B b (rto m))
            \<and> b \<le> rto m"
proof -
  have wf: "rfrom m < rto m" using ch by (simp add: chain_Cons)
  consider (before) "b < rfrom m" | (at) "b = rfrom m" | (inside) "rfrom m < b"
    by linarith
  then show ?thesis
  proof cases
    case before
    have sl: "slice B b (rfrom m) = Some (seg B b (rfrom m))"
      using b(1) before wf bd by (intro slice_seg) simp_all
    from sink_write_reliable [OF rel, of "seg B b (rfrom m)"] obtain d0 where
      d0: "sink_write d (seg B b (rfrom m)) = (d0, None)"
        "received d0 = received d @ seg B b (rfrom m)" "reliable d0"
      by blast
    from sink_write_reliable [OF d0(3), of sb] obtain d1 where
      d1: "sink_write d0 sb = (d1, None)" "received d1 = received d0 @ sb" "reliable d1"
      by blast
    have run: "flushRanges sb B limit (m # ms) ri d b dn
        = flushRanges sb B limit ms (ri + 1) d1 (rto m) ri"
      using lt before sl d0(1) d1(1) by simp
    have split: "seg B b (rto m) = seg B b (rfrom m) @ seg B (rfrom m) (rto m)"
      using b(1) before wf by (intro seg_append) simp_all
    have len: "int (length (seg B b (rfrom m))) = rfrom m - b"
      using b(1) before wf bd by (intro length_seg) simp_all
    have "pieces sb (m # ms) b (seg B b (rto m)) = seg B b (rfrom m) @ sb"
      unfolding split pieces_append len
      using pieces_before_head [OF ch b(1) _ bd(2), of sb] before
        pieces_head_range [OF ch _ bd(2), of sb] b(1)
      by simp
    with run d0 d1 before wf show ?thesis
      by auto
  next
    case at
    from sink_write_reliable [OF rel, of sb] obtain d1 where
      d1: "sink_write d sb = (d1, None)" "received d1 = received d @ sb" "reliable d1"
      by blast
    have run: "flushRanges sb B limit (m # ms) ri d b dn
        = flushRanges sb B limit ms (ri + 1) d1 (rto m) ri"
      using lt at d1(1) by simp
    have "pieces sb (m # ms) b (seg B b (rto m)) = sb"
      using pieces_head_range [OF ch _ bd(2), of sb] b(1) at by simp
    with run d1 at wf show ?thesis
      by auto
  next
    case inside
    with b have b0: "b = 0" and neg: "rfrom m < 0"
      by auto
    have run: "flushRanges sb B limit (m # ms) ri d b dn
        = flushRanges sb B limit ms (ri + 1) d (rto m) ri"
      using lt inside by simp
    have "pieces sb (m # ms) b (seg B b (rto m)) = []"
      using pieces_inside_head [OF neg bd] b0 by simp
    with run rel b0 bd show ?thesis
      by auto
  qed
qed

lemma pieces_skip_head:
  assumes "rto m \<le> x"
  shows "pieces sb (m # ms) x cs = pieces sb ms x cs"
proof (rule pieces_cong)
  fix y
  assume "x \<le> y"
  with assms show "covered (m # ms) y = covered ms y \<and> linked (m # ms) y = linked ms y"
    by (simp add: covered_Cons linked_Cons)
qed

lemma flushRanges_spec:
  assumes "chain ms" "\<forall>m \<in> set ms. 0 < rto m \<and> rto m \<le> int (length B)" "reliable d"
    "0 \<le> b" "b \<le> int (length B)" "ms \<noteq> [] \<longrightarrow> b \<le> rfrom (hd ms) \<or> b = 0"
  shows "\<exists>d' b' k.
      flushRanges sb B limit ms ri d b dn
        = Some (d', Inr (b', if k = 0 then dn else ri + int k - 1))
      \<and> k \<le> length ms \<and> reliable d' \<and> b \<le> b' \<and> b' \<le> int (length B)
      \<and> received d' = received d @ pieces sb ms b (seg B b b')
      \<and> (k = 0 \<longrightarrow> b' = b)
      \<and> (\<forall>m \<in> set (take k ms). rto m \<le> b')
      \<and> (\<forall>m \<in> set (drop k ms). limit \<le> rfrom m \<and> (0 < k \<longrightarrow> b' \<le> rfrom m))
      \<and> (\<forall>x. limit \<le> x \<and> b \<le> x \<and> x < b' \<longrightarrow> linked ms x)"
  using assms
proof (induction ms arbitrary: ri d b dn)
  case Nil
  have "flushRanges sb B limit [] ri d b dn = Some (d, Inr (b, if (0::nat) = 0 then dn else ri + int 0 - 1))"
    by simp
  then show ?case
    using Nil.prems by (intro exI [of _ d] exI [of _ b] exI [of _ "0::nat"]) (auto simp: seg_empty)
next
  case (Cons m ms)
  have wf: "rfrom m < rto m" using Cons.prems(1) by (simp add: chain_Cons)
  have later: "\<forall>m' \<in> set ms. rto m \<le> rfrom m'"
    using chain_after [OF Cons.prems(1)] by blast
  have bd: "0 < rto m" "rto m \<le> int (length B)"
    using Cons.prems(2) by simp_all
  show ?case
  proof (cases "limit \<le> rfrom m")
    case True
    have run: "flushRanges sb B limit (m # ms) ri d b dn
        = Some (d, Inr (b, if (0::nat) = 0 then dn else ri + int 0 - 1))"
      using True by simp
    have rest: "\<forall>m' \<in> set (drop 0 (m # ms)). limit \<le> rfrom m' \<and> ((0::nat) < 0 \<longrightarrow> b \<le> rfrom m')"
      using True later wf by fastforce
    show ?thesis
      using run rest Cons.prems(3,4,5)
      by (intro exI [of _ d] exI [of _ b] exI [of _ "0::nat"]) (auto simp: seg_empty)
  next
    case False
    then have lt: "rfrom m < limit" by simp
    have b2: "b \<le> rfrom m \<or> b = 0" using Cons.prems(6) by simp
    from flush_one [OF Cons.prems(1) bd Cons.prems(3) Cons.prems(4) b2 lt, of sb ri dn]
    obtain d1 where
      one: "flushRanges sb B limit (m # ms) ri d b dn
              = flushRanges sb B limit ms (ri + 1) d1 (rto m) ri"
        "reliable d1"
        "received d1 = received d @ pieces sb (m # ms) b (seg B b (rto m))"
        "b \<le> rto m"
      by blast
    have c': "chain ms" using Cons.prems(1) by (simp add: chain_Cons)
    have bd': "\<forall>m \<in> set ms. 0 < rto m \<and> rto m \<le> int (length B)"
      using Cons.prems(2) by simp
    have hd': "ms \<noteq> [] \<longrightarrow> rto m \<le> rfrom (hd ms) \<or> rto m = 0"
      using later by (cases ms) auto
    from Cons.IH [OF c' bd' one(2) _ bd(2) hd', of "ri + 1" ri] bd(1)
    obtain d' b' k where
      ih: "flushRanges sb B limit ms (ri + 1) d1 (rto m) ri
             = Some (d', Inr (b', if k = 0 then ri else ri + 1 + int k - 1))"
        "k \<le> length ms" "reliable d'" "rto m \<le> b'" "b' \<le> int (length B)"
        "received d' = received d1 @ pieces sb ms (rto m) (seg B (rto m) b')"
        "k = 0 \<longrightarrow> b' = rto m"
        "\<forall>m \<in> set (take k ms). rto m \<le> b'"
        "\<forall>m \<in> set (drop k ms). limit \<le> rfrom m \<and> (0 < k \<longrightarrow> b' \<le> rfrom m)"
        "\<forall>x. limit \<le> x \<and> rto m \<le> x \<and> x < b' \<longrightarrow> linked ms x"
      by (auto simp: less_imp_le)
    have run: "flushRanges sb B limit (m # ms) ri d b dn
        = Some (d', Inr (b', if Suc k = 0 then dn else ri + int (Suc k) - 1))"
      using one(1) ih(1) by (cases "k = 0") simp_all
    have split: "seg B b b' = seg B b (rto m) @ seg B (rto m) b'"
      using Cons.prems(4) one(4) ih(4) by (intro seg_append)
    have len: "int (length (seg B b (rto m))) = rto m - b"
      using Cons.prems(4) one(4) bd(2) by (intro length_seg)
    have rcv: "received d' = received d @ pieces sb (m # ms) b (seg B b b')"
      unfolding split pieces_append len
      using ih(6) one(3) pieces_skip_head [of m "rto m" sb ms "seg B (rto m) b'"]
      by simp
    have tk: "\<forall>m' \<in> set (take (Suc k) (m # ms)). rto m' \<le> b'"
      using ih(4,8) by simp
    have dr: "\<forall>m' \<in> set (drop (Suc k) (m # ms)). limit \<le> rfrom m' \<and> (0 < Suc k \<longrightarrow> b' \<le> rfrom m')"
    proof
      fix m'
      assume m': "m' \<in> set (drop (Suc k) (m # ms))"
      then have in_ms: "m' \<in> set ms"
        using in_set_dropD [of m' k ms] by simp
      have "b' \<le> rfrom m'"
      proof (cases "k = 0")
        case True
        with ih(7) later in_ms show ?thesis by simp
      next
        case False
        with ih(9) m' show ?thesis by simp
      qed
      with ih(9) m' show "limit \<le> rfrom m' \<and> (0 < Suc k \<longrightarrow> b' \<le> rfrom m')"
        by simp
    qed
    have lk: "\<forall>x. limit \<le> x \<and> b \<le> x \<and> x < b' \<longrightarrow> linked (m # ms) x"
    proof (intro allI impI)
      fix x
      assume x: "limit \<le> x \<and> b \<le> x \<and> x < b'"
      show "linked (m # ms) x"
      proof (cases "x < rto m")
        case True
        with x lt show ?thesis by (simp add: linked_Cons)
      next
        case False
        with x ih(10) show ?thesis by (simp add: linked_Cons)
      qed
    qed
    have le: "b \<le> b'" using one(4) ih(4) by simp
    show ?thesis
      using run ih(2,3,5) le rcv tk dr lk
      by (intro exI [of _ d'] exI [of _ b'] exI [of _ "Suc k"]) simp
  qed
qed

subsection \<open>Re-basing and compaction\<close>

lemma rebaseLoop_length: "length (rebaseLoop cm k x i n) = length cm"
  by (induction n arbitrary: cm i) simp_all

lemma rebaseLoop_below: "j < i \<Longrightarrow> rebaseLoop cm k x i n ! j = cm ! j"
  by (induction n arbitrary: cm i) simp_all

lemma rebaseLoop_nth:
  "i \<le> j \<Longrightarrow> j < i + n \<Longrightarrow> k + j < length cm \<Longrightarrow>
     rebaseLoop cm k x i n ! j = sub (cm ! (k + j)) x"
proof (induction n arbitrary: cm i)
  case 0
  then show ?case by simp
next
  case (Suc n)
  let ?cm = "cm[i := sub (cm ! (k + i)) x]"
  show ?case
  proof (cases "j = i")
    case True
    have "rebaseLoop ?cm k x (Suc i) n ! j = ?cm ! j"
      using True by (intro rebaseLoop_below) simp
    then show ?thesis
      using True Suc.prems by simp
  next
    case False
    with Suc.prems have "Suc i \<le> j" "j < Suc i + n" "k + j < length ?cm"
      by simp_all
    from Suc.IH [OF this] have "rebaseLoop ?cm k x (Suc i) n ! j = sub (?cm ! (k + j)) x" .
    moreover have "?cm ! (k + j) = cm ! (k + j)"
      using False Suc.prems by simp
    ultimately show ?thesis by simp
  qed
qed

lemma rebase_result:
  assumes "k \<le> length cm"
  shows "take (length cm - k) (rebaseLoop cm k x 0 (length cm - k)) = map (\<lambda>m. sub m x) (drop k cm)"
proof (rule nth_equalityI)
  show "length (take (length cm - k) (rebaseLoop cm k x 0 (length cm - k)))
      = length (map (\<lambda>m. sub m x) (drop k cm))"
    by (simp add: rebaseLoop_length)
next
  fix j
  assume "j < length (take (length cm - k) (rebaseLoop cm k x 0 (length cm - k)))"
  then have j: "j < length cm - k"
    by (simp add: rebaseLoop_length)
  then have "rebaseLoop cm k x 0 (length cm - k) ! j = sub (cm ! (k + j)) x"
    by (intro rebaseLoop_nth) simp_all
  then show "take (length cm - k) (rebaseLoop cm k x 0 (length cm - k)) ! j
      = map (\<lambda>m. sub m x) (drop k cm) ! j"
    using j assms by simp
qed

lemma compact_keep:
  assumes "0 \<le> ct" "ct < int (length (buf r))" "k \<le> length (completedMatches r)"
  shows "compact r ct (int k - 1)
    = Some (r\<lparr>buf := drop (nat ct) (buf r),
              completedMatches := map (\<lambda>m. sub m ct) (drop k (completedMatches r))\<rparr>)"
  using assms rebase_result [OF assms(3), of ct]
  by (simp add: compact_def Let_def)

lemma covered_sub: "covered (map (\<lambda>m. sub m k) C) x = covered C (x + k)"
  by (simp add: covered_def contains_def sub_def diff_le_eq less_diff_eq)

lemma linked_sub: "linked (map (\<lambda>m. sub m k) C) x = linked C (x + k)"
  by (simp add: linked_def sub_def diff_less_eq less_diff_eq)

lemma chain_sub: "chain C \<Longrightarrow> chain (map (\<lambda>m. sub m k) C)"
  by (induction C rule: chain.induct) (simp_all add: sub_def)

lemma chain_drop: "chain C \<Longrightarrow> chain (drop k C)"
proof (induction k arbitrary: C)
  case 0
  then show ?case by simp
next
  case (Suc k)
  then show ?case by (cases C) (simp_all add: chain_Cons)
qed

lemma covered_take_drop: "covered C x \<longleftrightarrow> covered (take k C) x \<or> covered (drop k C) x"
  using covered_append [of "take k C" "drop k C" x] by simp

lemma linked_take_drop: "linked C x \<longleftrightarrow> linked (take k C) x \<or> linked (drop k C) x"
  using linked_append [of "take k C" "drop k C" x] by simp

lemma compact_spec:
  assumes ch: "chain (completedMatches r)"
    and bd: "\<forall>m \<in> set (completedMatches r). 0 < rto m \<and> rto m \<le> int (length (buf r))"
    and ct: "0 \<le> ct" "ct \<le> int (length (buf r))"
    and k: "k \<le> length (completedMatches r)"
    and tk: "\<forall>m \<in> set (take k (completedMatches r)). rto m \<le> ct"
    and dr: "\<forall>m \<in> set (drop k (completedMatches r)). ct < rto m"
  shows "\<exists>r'. compact r ct (int k - 1) = Some r'
      \<and> buf r' = drop (nat ct) (buf r)
      \<and> chain (completedMatches r')
      \<and> (\<forall>m \<in> set (completedMatches r'). 0 < rto m \<and> rto m \<le> int (length (buf r')))
      \<and> (\<forall>x. 0 \<le> x \<longrightarrow>
            covered (completedMatches r') x = covered (completedMatches r) (x + ct) \<and>
            linked (completedMatches r') x = linked (completedMatches r) (x + ct))
      \<and> dst r' = dst r \<and> partialMatches r' = partialMatches r
      \<and> nextMatches r' = nextMatches r \<and> subst r' = subst r
      \<and> needlesByFirstByte r' = needlesByFirstByte r"
proof (cases "int (length (buf r)) \<le> ct")
  case True
  let ?r' = "r\<lparr>buf := [], completedMatches := []\<rparr>"
  have run: "compact r ct (int k - 1) = Some ?r'"
    using True by (simp add: compact_def)
  have all: "\<forall>m \<in> set (completedMatches r). rto m \<le> ct"
    using bd True by force
  have miss: "\<forall>x. 0 \<le> x \<longrightarrow>
      \<not> covered (completedMatches r) (x + ct) \<and> \<not> linked (completedMatches r) (x + ct)"
    using earlier_ranges_miss [OF all] by simp
  show ?thesis
    using run True ct miss by (intro exI [of _ ?r']) (simp add: covered_Nil linked_Nil)
next
  case False
  let ?C = "map (\<lambda>m. sub m ct) (drop k (completedMatches r))"
  let ?r' = "r\<lparr>buf := drop (nat ct) (buf r), completedMatches := ?C\<rparr>"
  have run: "compact r ct (int k - 1) = Some ?r'"
    using False ct(1) k by (intro compact_keep) simp_all
  have c': "chain ?C"
    using ch by (intro chain_sub chain_drop)
  have len: "int (length (drop (nat ct) (buf r))) = int (length (buf r)) - ct"
    using ct by simp
  have bd': "\<forall>m \<in> set ?C. 0 < rto m \<and> rto m \<le> int (length (drop (nat ct) (buf r)))"
  proof
    fix m
    assume "m \<in> set ?C"
    then obtain m0 where m0: "m0 \<in> set (drop k (completedMatches r))" "m = sub m0 ct"
      by auto
    have "m0 \<in> set (completedMatches r)"
      using m0(1) by (rule in_set_dropD)
    with bd have "rto m0 \<le> int (length (buf r))" by simp
    moreover have "ct < rto m0" using dr m0(1) by simp
    ultimately show "0 < rto m \<and> rto m \<le> int (length (drop (nat ct) (buf r)))"
      unfolding len m0(2) by (simp add: sub_def)
  qed
  have same: "\<forall>x. 0 \<le> x \<longrightarrow>
      covered ?C x = covered (completedMatches r) (x + ct) \<and>
      linked ?C x = linked (completedMatches r) (x + ct)"
  proof (intro allI impI)
    fix x :: int
    assume "0 \<le> x"
    then have "\<not> covered (take k (completedMatches r)) (x + ct) \<and>
        \<not> linked (take k (completedMatches r)) (x + ct)"
      using earlier_ranges_miss [OF tk, of "x + ct"] by simp
    then show "covered ?C x = covered (completedMatches r) (x + ct) \<and>
      linked ?C x = linked (completedMatches r) (x + ct)"
      using covered_take_drop [of "completedMatches r" "x + ct" k]
        linked_take_drop [of "completedMatches r" "x + ct" k]
      by (simp add: covered_sub linked_sub)
  qed
  show ?thesis
    using run c' bd' same by (intro exI [of _ ?r']) simp
qed

lemma flushUpTo_spec:
  assumes ch: "chain (completedMatches r)"
    and bd: "\<forall>m \<in> set (completedMatches r). 0 < rto m \<and> rto m \<le> int (length (buf r))"
    and rel: "reliable (dst r)"
    and lim: "limit \<le> int (length (buf r))"
  shows "\<exists>r' ct. flushUpTo r limit = Some (r', None)
      \<and> 0 \<le> ct \<and> ct \<le> int (length (buf r)) \<and> limit \<le> ct
      \<and> buf r' = drop (nat ct) (buf r)
      \<and> received (dst r')
          = received (dst r) @ pieces (subst r) (completedMatches r) 0 (take (nat ct) (buf r))
      \<and> reliable (dst r')
      \<and> chain (completedMatches r')
      \<and> (\<forall>m \<in> set (completedMatches r'). 0 < rto m \<and> rto m \<le> int (length (buf r')))
      \<and> (\<forall>x. 0 \<le> x \<longrightarrow>
            covered (completedMatches r') x = covered (completedMatches r) (x + ct) \<and>
            linked (completedMatches r') x = linked (completedMatches r) (x + ct))
      \<and> (\<forall>x. limit \<le> x \<and> 0 \<le> x \<and> x < ct \<longrightarrow> linked (completedMatches r) x)
      \<and> partialMatches r' = partialMatches r
      \<and> nextMatches r' = nextMatches r \<and> subst r' = subst r
      \<and> needlesByFirstByte r' = needlesByFirstByte r"
proof (cases "limit = 0 \<or> length (buf r) = 0")
  case True
  have run: "flushUpTo r limit = Some (r, None)"
    using True by (simp add: flushUpTo_def)
  have "limit \<le> 0" using True lim by auto
  then show ?thesis
    using run ch bd rel by (intro exI [of _ r] exI [of _ "0::int"]) auto
next
  case False
  let ?B = "buf r"
  let ?C = "completedMatches r"
  let ?sb = "subst r"
  have hd: "?C \<noteq> [] \<longrightarrow> 0 \<le> rfrom (hd ?C) \<or> (0::int) = 0"
    by simp
  from flushRanges_spec [OF ch bd rel _ _ hd, of ?sb limit 0 "- 1"]
  obtain d' b' k where
    fr: "flushRanges ?sb ?B limit ?C 0 (dst r) 0 (- 1)
           = Some (d', Inr (b', if k = 0 then - 1 else 0 + int k - 1))"
      "k \<le> length ?C" "reliable d'" "0 \<le> b'" "b' \<le> int (length ?B)"
      "received d' = received (dst r) @ pieces ?sb ?C 0 (seg ?B 0 b')"
      "k = 0 \<longrightarrow> b' = 0"
      "\<forall>m \<in> set (take k ?C). rto m \<le> b'"
      "\<forall>m \<in> set (drop k ?C). limit \<le> rfrom m \<and> (0 < k \<longrightarrow> b' \<le> rfrom m)"
      "\<forall>x. limit \<le> x \<and> 0 \<le> x \<and> x < b' \<longrightarrow> linked ?C x"
    by auto
  have dn: "(if k = 0 then - 1 else 0 + int k - 1) = int k - 1"
    by simp
  have wfC: "\<forall>m \<in> set ?C. rfrom m < rto m"
    using chain_wf [OF ch] by blast
  have wfdrop: "\<forall>m \<in> set (drop k ?C). rfrom m < rto m \<and> 0 < rto m"
    using wfC bd in_set_dropD [of _ k ?C] by blast
  show ?thesis
  proof (cases "b' < limit")
    case True
    have sl: "slice ?B b' limit = Some (seg ?B b' limit)"
      using fr(4) True lim by (intro slice_seg) simp_all
    from sink_write_reliable [OF fr(3), of "seg ?B b' limit"] obtain d2 where
      d2: "sink_write d' (seg ?B b' limit) = (d2, None)"
        "received d2 = received d' @ seg ?B b' limit" "reliable d2"
      by blast
    let ?r1 = "r\<lparr>dst := d2\<rparr>"
    have tk: "\<forall>m \<in> set (take k (completedMatches ?r1)). rto m \<le> limit"
      using fr(8) True by force
    have dr: "\<forall>m \<in> set (drop k (completedMatches ?r1)). limit < rto m"
      using fr(9) wfdrop by force
    have l0: "0 \<le> limit" using fr(4) True by simp
    from compact_spec [of ?r1 limit k] ch bd l0 lim fr(2) tk dr
    obtain r' where
      cp: "compact ?r1 limit (int k - 1) = Some r'"
        "buf r' = drop (nat limit) ?B"
        "chain (completedMatches r')"
        "\<forall>m \<in> set (completedMatches r'). 0 < rto m \<and> rto m \<le> int (length (buf r'))"
        "\<forall>x. 0 \<le> x \<longrightarrow>
            covered (completedMatches r') x = covered ?C (x + limit) \<and>
            linked (completedMatches r') x = linked ?C (x + limit)"
        "dst r' = d2" "partialMatches r' = partialMatches r"
        "nextMatches r' = nextMatches r" "subst r' = subst r"
        "needlesByFirstByte r' = needlesByFirstByte r"
      by auto
    have run: "flushUpTo r limit = Some (r', None)"
      using False fr(1) True sl d2(1) cp(1) unfolding dn by (simp add: flushUpTo_def)
    have split: "seg ?B 0 limit = seg ?B 0 b' @ seg ?B b' limit"
      using fr(4) True by (intro seg_append) simp_all
    have len: "int (length (seg ?B 0 b')) = b' - 0"
      using fr(4,5) by (intro length_seg) simp_all
    have plain: "pieces ?sb ?C b' (seg ?B b' limit) = seg ?B b' limit"
    proof (rule pieces_plain)
      fix y
      assume y: "b' \<le> y" "y < b' + int (length (seg ?B b' limit))"
      have "int (length (seg ?B b' limit)) = limit - b'"
        using fr(4) True lim by (intro length_seg) simp_all
      with y have yl: "y < limit" by simp
      have "\<forall>m \<in> set (drop k ?C). limit \<le> rfrom m" using fr(9) by blast
      then have "\<not> covered (drop k ?C) y"
        using later_ranges_miss [of "drop k ?C" limit y] yl by simp
      moreover have "\<not> covered (take k ?C) y"
        using earlier_ranges_miss [OF fr(8) y(1)] by simp
      ultimately show "\<not> covered ?C y"
        using covered_take_drop [of ?C y k] by simp
    qed
    have rcv: "received (dst r') = received (dst r) @ pieces ?sb ?C 0 (take (nat limit) ?B)"
      unfolding seg_take [symmetric] split pieces_append len
      using cp(6) d2(2) fr(6) plain by simp
    have lk: "\<forall>x. limit \<le> x \<and> 0 \<le> x \<and> x < limit \<longrightarrow> linked ?C x"
      by auto
    show ?thesis
      using run l0 lim cp(2,3,4,5,7,8,9,10) rcv d2(3) cp(6) lk
      by (intro exI [of _ r'] exI [of _ limit]) simp
  next
    case False
    let ?r1 = "r\<lparr>dst := d'\<rparr>"
    have tk: "\<forall>m \<in> set (take k (completedMatches ?r1)). rto m \<le> b'"
      using fr(8) by simp
    have dr: "\<forall>m \<in> set (drop k (completedMatches ?r1)). b' < rto m"
    proof (cases "k = 0")
      case True
      with fr(7) wfdrop show ?thesis by simp
    next
      case False
      with fr(9) wfdrop show ?thesis by force
    qed
    from compact_spec [of ?r1 b' k] ch bd fr(4,5,2) tk dr
    obtain r' where
      cp: "compact ?r1 b' (int k - 1) = Some r'"
        "buf r' = drop (nat b') ?B"
        "chain (completedMatches r')"
        "\<forall>m \<in> set (completedMatches r'). 0 < rto m \<and> rto m \<le> int (length (buf r'))"
        "\<forall>x. 0 \<le> x \<longrightarrow>
            covered (completedMatches r') x = covered ?C (x + b') \<and>
            linked (completedMatches r') x = linked ?C (x + b')"
        "dst r' = d'" "partialMatches r' = partialMatches r"
        "nextMatches r' = nextMatches r" "subst r' = subst r"
        "needlesByFirstByte r' = needlesByFirstByte r"
      by auto
    have run: "flushUpTo r limit = Some (r', None)"
      using \<open>\<not> (limit = 0 \<or> length (buf r) = 0)\<close> fr(1) False cp(1)
      unfolding dn by (simp add: flushUpTo_def)
    have rcv: "received (dst r') = received (dst r) @ pieces ?sb ?C 0 (take (nat b') ?B)"
      using cp(6) fr(6) by (simp add: seg_take)
    have le: "limit \<le> b'" using False by simp
    show ?thesis
      using run fr(4,5) le cp(2,3,4,5,7,8,9,10) rcv fr(3) cp(6) fr(10)
      by (intro exI [of _ r'] exI [of _ b']) simp
  qed
qed

subsection \<open>One Write\<close>

lemma Write_spec:
  assumes iv: "inv r" and ne: "b \<noteq> []"
  shows "\<exists>r' P' N ct.
      scanStream (needlesByFirstByte r) (partialMatches r) (int (length (buf r))) b = Some (P', N)
      \<and> Write r b = Some (r', int (length b), None)
      \<and> inv r'
      \<and> partialMatches r' = P'
      \<and> 0 \<le> ct \<and> ct \<le> int (length (buf r @ b))
      \<and> flushLimit (int (length (buf r @ b))) (int (length (buf r @ b))) P' \<le> ct
      \<and> buf r' = drop (nat ct) (buf r @ b)
      \<and> received (dst r')
          = received (dst r) @ pieces (subst r) (completedMatches r @ N) 0 (take (nat ct) (buf r @ b))
      \<and> (\<forall>x. 0 \<le> x \<longrightarrow>
            covered (completedMatches r') x = covered (completedMatches r @ N) (x + ct) \<and>
            linked (completedMatches r') x = linked (completedMatches r @ N) (x + ct))
      \<and> (\<forall>x. flushLimit (int (length (buf r @ b))) (int (length (buf r @ b))) P' \<le> x
              \<and> 0 \<le> x \<and> x < ct \<longrightarrow> linked (completedMatches r @ N) x)
      \<and> subst r' = subst r
      \<and> needlesByFirstByte r' = needlesByFirstByte r"
proof -
  let ?C = "completedMatches r"
  let ?B = "buf r @ b"
  let ?a = "int (length (buf r))"
  let ?idx = "needlesByFirstByte r"
  from iv have pm: "list_all pmOK (partialMatches r)" and nx: "nextMatches r = []"
    and ch: "chain ?C" and bd: "\<forall>m \<in> set ?C. 0 < rto m \<and> rto m \<le> ?a"
    and ix: "idxOK ?idx" and rel: "reliable (dst r)"
    by (simp_all add: inv_def)
  from scanStream_total [OF pm ix, of ?a b] obtain P' N where
    sc: "scanStream ?idx (partialMatches r) ?a b = Some (P', N)" "list_all pmOK P'"
      "\<forall>m \<in> set N. rfrom m < rto m \<and> ?a < rto m \<and> rto m \<le> ?a + int (length b) \<and>
                         flushLimit ?a ?a (partialMatches r) \<le> rfrom m"
      "sorted (map rto N)"
    by blast
  let ?r1 = "r\<lparr>buf := ?B\<rparr>"
  let ?r2 = "?r1\<lparr>partialMatches := P', nextMatches := [], completedMatches := ?C @ N\<rparr>"
  have sb: "scanBytes ?r1 ?a 0 b = Some ?r2"
    using scanBytes_scanStream [of ?r1 ?a 0 b] nx sc(1) by simp
  let ?M = "mergeOverlaps (?C @ N)"
  let ?r3 = "?r2\<lparr>completedMatches := ?M\<rparr>"
  let ?limit = "flushLimit (int (length ?B)) (int (length ?B)) P'"
  have wfCN: "\<forall>m \<in> set (?C @ N). rfrom m < rto m"
    using chain_wf [OF ch] sc(3) by auto
  have srt: "sorted (map rto (?C @ N))"
    using chain_sorted [OF ch] sc(4) bd sc(3) by (fastforce simp: sorted_append)
  have chM: "chain ?M"
    using srt wfCN by (rule mergeOverlaps_chain)
  have bdCN: "\<forall>m \<in> set (?C @ N). 0 < rto m \<and> rto m \<le> int (length ?B)"
    using bd sc(3) by auto
  have bdM: "\<forall>m \<in> set ?M. 0 < rto m \<and> rto m \<le> int (length ?B)"
  proof
    fix m
    assume "m \<in> set ?M"
    then have "rto m \<in> rto ` set (?C @ N)"
      using mergeOverlaps_rto [of "?C @ N"] by blast
    then obtain m0 where "m0 \<in> set (?C @ N)" "rto m = rto m0"
      by auto
    with bdCN show "0 < rto m \<and> rto m \<le> int (length ?B)"
      by simp
  qed
  define r3 where "r3 = ?r3"
  have sel: "buf r3 = ?B" "completedMatches r3 = ?M" "dst r3 = dst r" "subst r3 = subst r"
    "partialMatches r3 = P'" "nextMatches r3 = []" "needlesByFirstByte r3 = ?idx"
    by (simp_all add: r3_def)
  have p1: "chain (completedMatches r3)" using chM sel by simp
  have p2: "\<forall>m \<in> set (completedMatches r3). 0 < rto m \<and> rto m \<le> int (length (buf r3))"
    using bdM sel by simp
  have p3: "reliable (dst r3)" using rel sel by simp
  have lim: "?limit \<le> int (length (buf r3))"
    using flushLimit_le [of "int (length ?B)" "int (length ?B)" P'] sel by simp
  note spec = flushUpTo_spec [OF p1 p2 p3 lim, unfolded sel]
  from spec obtain r' ct where
    fl: "flushUpTo r3 ?limit = Some (r', None)"
      "0 \<le> ct" "ct \<le> int (length ?B)" "?limit \<le> ct"
      "buf r' = drop (nat ct) ?B"
      "received (dst r') = received (dst r) @ pieces (subst r) ?M 0 (take (nat ct) ?B)"
      "reliable (dst r')"
      "chain (completedMatches r')"
      "\<forall>m \<in> set (completedMatches r'). 0 < rto m \<and> rto m \<le> int (length (buf r'))"
      "\<forall>x. 0 \<le> x \<longrightarrow>
            covered (completedMatches r') x = covered ?M (x + ct) \<and>
            linked (completedMatches r') x = linked ?M (x + ct)"
      "\<forall>x. ?limit \<le> x \<and> 0 \<le> x \<and> x < ct \<longrightarrow> linked ?M x"
      "partialMatches r' = P'" "nextMatches r' = []" "subst r' = subst r"
      "needlesByFirstByte r' = ?idx"
    by blast
  have run: "Write r b = Some (r', int (length b), None)"
    using ne sb fl(1) unfolding r3_def by (simp add: Write_def Let_def)
  have cv: "\<And>x. covered ?M x = covered (?C @ N) x"
    using mergeOverlaps_covered [OF wfCN] .
  have lk: "\<And>x. linked ?M x = linked (?C @ N) x"
    using mergeOverlaps_linked [OF wfCN] .
  have pc: "pieces (subst r) ?M 0 (take (nat ct) ?B)
      = pieces (subst r) (?C @ N) 0 (take (nat ct) ?B)"
    by (rule pieces_cong) (simp add: cv lk)
  have iv': "inv r'"
    using sc(2) fl(7,8,9,12,13,15) ix by (simp add: inv_def)
  show ?thesis
    using sc(1) run iv' fl(2,3,4,5,12,14,15) fl(6) fl(10) fl(11)
    unfolding pc cv lk
    by (intro exI [of _ r'] exI [of _ P'] exI [of _ N] exI [of _ ct]) simp
qed

subsection \<open>The state against the whole stream\<close>

lemma pieces_cong2:
  "(\<And>y. 0 \<le> y \<Longrightarrow> y < int (length cs) \<Longrightarrow>
        covered C (x + y) = covered C' (x' + y) \<and> linked C (x + y) = linked C' (x' + y)) \<Longrightarrow>
   pieces sb C x cs = pieces sb C' x' cs"
proof (induction cs arbitrary: x x')
  case Nil
  then show ?case by simp
next
  case (Cons c cs)
  have 1: "covered C x = covered C' x' \<and> linked C x = linked C' x'"
    using Cons.prems [of 0] by simp
  have 2: "pieces sb C (x + 1) cs = pieces sb C' (x' + 1) cs"
  proof (rule Cons.IH)
    fix y :: int
    assume "0 \<le> y" "y < int (length cs)"
    then show "covered C (x + 1 + y) = covered C' (x' + 1 + y) \<and>
        linked C (x + 1 + y) = linked C' (x' + 1 + y)"
      using Cons.prems [of "y + 1"] by (simp add: ac_simps)
  qed
  from 1 2 show ?case by simp
qed

lemma shift_eq: "shift k = (\<lambda>m. sub m (- k))"
  by (rule ext) (simp add: shift_def)

lemma covered_shift: "covered (map (shift k) C) x = covered C (x - k)"
  unfolding shift_eq using covered_sub [of "- k" C x] by simp

lemma linked_shift: "linked (map (shift k) C) x = linked C (x - k)"
  unfolding shift_eq using linked_sub [of "- k" C x] by simp

lemma rfrom_shift: "rfrom (shift k m) = rfrom m + k"
  by (simp add: shift_def sub_def)

lemma tracks_Write:
  assumes tr: "tracks d0 sb r s N" and ne: "b \<noteq> []"
  shows "\<exists>r' N2.
      scanStream (needlesByFirstByte r) (partialMatches r) (int (length s)) b
        = Some (partialMatches r', N2)
      \<and> Write r b = Some (r', int (length b), None)
      \<and> tracks d0 sb r' (s @ b) (N @ N2)
      \<and> needlesByFirstByte r' = needlesByFirstByte r"
proof -
  define P where "P = partialMatches r"
  define idx where "idx = needlesByFirstByte r"
  have pmq: "partialMatches r = P" and ixq: "needlesByFirstByte r = idx"
    by (simp_all add: P_def idx_def)
  from tr obtain base where
    iv: "inv r" and sbq: "subst r = sb"
    and b0: "0 \<le> base" and bq: "base = int (length s) - int (length (buf r))"
    and bufq: "buf r = drop (nat base) s"
    and cl: "\<forall>x. 0 \<le> x \<longrightarrow>
            covered (completedMatches r) x = covered N (x + base) \<and>
            linked (completedMatches r) x = linked N (x + base)"
    and rc: "received (dst r) = received d0 @ pieces sb N 0 (take (nat base) s)"
    and fin: "\<forall>x. flushLimit (int (length s)) (int (length s)) P \<le> x \<and> 0 \<le> x \<and> x < base
              \<longrightarrow> linked N x"
    unfolding tracks_def pmq by blast
  let ?C = "completedMatches r"
  let ?B = "buf r @ b"
  let ?a = "int (length (buf r))"
  let ?l = "int (length s)"
  from Write_spec [OF iv ne, unfolded ixq pmq sbq] obtain r' P' Nr ct where
    ws: "scanStream idx P ?a b = Some (P', Nr)"
      "Write r b = Some (r', int (length b), None)"
      "inv r'" "partialMatches r' = P'" "0 \<le> ct" "ct \<le> int (length ?B)"
      "flushLimit (int (length ?B)) (int (length ?B)) P' \<le> ct"
      "buf r' = drop (nat ct) ?B"
      "received (dst r') = received (dst r) @ pieces sb (?C @ Nr) 0 (take (nat ct) ?B)"
      "\<forall>x. 0 \<le> x \<longrightarrow>
            covered (completedMatches r') x = covered (?C @ Nr) (x + ct) \<and>
            linked (completedMatches r') x = linked (?C @ Nr) (x + ct)"
      "\<forall>x. flushLimit (int (length ?B)) (int (length ?B)) P' \<le> x \<and> 0 \<le> x \<and> x < ct
            \<longrightarrow> linked (?C @ Nr) x"
      "subst r' = sb" "needlesByFirstByte r' = idx"
    by blast
  have la: "?l = ?a + base" using bq by simp
  have pmP: "list_all pmOK P" and ix: "idxOK idx"
    using iv pmq ixq by (simp_all add: inv_def)
  let ?N2 = "map (shift base) Nr"
  have ab: "scanStream idx P ?l b = Some (P', ?N2)"
    unfolding la using scanStream_shift [of idx P ?a base b] ws(1) by simp
  from scanStream_total [OF pmP ix, of ?l b] ab
  have n2: "\<forall>m \<in> set ?N2. flushLimit ?l ?l P \<le> rfrom m"
    and mono: "flushLimit ?l ?l P \<le> flushLimit (?l + int (length b)) (?l + int (length b)) P'"
    by auto
  define X where "X = take (nat base) s"
  have sX: "s = X @ buf r"
    unfolding X_def bufq by simp
  have lenX: "int (length X) = base"
    unfolding X_def using b0 bq by simp
  have natsum: "nat (base + ct) = length X + nat ct"
    using b0 ws(5) lenX by simp
  have tk: "take (nat (base + ct)) (s @ b) = X @ take (nat ct) ?B"
    unfolding natsum by (subst sX) simp
  have dr: "drop (nat (base + ct)) (s @ b) = drop (nat ct) ?B"
    unfolding natsum by (subst sX) simp
  have g1: "0 \<le> base + ct" using b0 ws(5) by simp
  have g2: "base + ct = int (length (s @ b)) - int (length (buf r'))"
    using ws(5,6,8) bq by simp
  have g3: "buf r' = drop (nat (base + ct)) (s @ b)"
    using ws(8) dr by simp
  have cn: "\<And>y. 0 \<le> y \<Longrightarrow>
      covered (?C @ Nr) y = covered (N @ ?N2) (y + base) \<and>
      linked (?C @ Nr) y = linked (N @ ?N2) (y + base)"
    using cl by (simp add: covered_append linked_append covered_shift linked_shift)
  have g4: "\<forall>x. 0 \<le> x \<longrightarrow>
      covered (completedMatches r') x = covered (N @ ?N2) (x + (base + ct)) \<and>
      linked (completedMatches r') x = linked (N @ ?N2) (x + (base + ct))"
  proof (intro allI impI)
    fix x :: int
    assume x: "0 \<le> x"
    then have "0 \<le> x + ct" using ws(5) by simp
    from cn [OF this] ws(10) x show
      "covered (completedMatches r') x = covered (N @ ?N2) (x + (base + ct)) \<and>
       linked (completedMatches r') x = linked (N @ ?N2) (x + (base + ct))"
      by (simp add: ac_simps)
  qed
  have stable: "pieces sb (N @ ?N2) 0 X = pieces sb N 0 X"
  proof (rule pieces_cong)
    fix y :: int
    assume y: "0 \<le> y" "y < 0 + int (length X)"
    then have yb: "y < base" using lenX by simp
    show "covered (N @ ?N2) y = covered N y \<and> linked (N @ ?N2) y = linked N y"
    proof (cases "flushLimit ?l ?l P \<le> y")
      case True
      with fin y(1) yb have "linked N y" by simp
      then show ?thesis
        using linked_covered [of N y] by (simp add: covered_append linked_append)
    next
      case False
      then have "\<not> covered ?N2 y \<and> \<not> linked ?N2 y"
        using later_ranges_miss [OF n2, of y] by simp
      then show ?thesis
        by (simp add: covered_append linked_append)
    qed
  qed
  have fresh: "pieces sb (N @ ?N2) base (take (nat ct) ?B) = pieces sb (?C @ Nr) 0 (take (nat ct) ?B)"
  proof (rule pieces_cong2)
    fix y :: int
    assume "0 \<le> y"
    from cn [OF this] show
      "covered (N @ ?N2) (base + y) = covered (?C @ Nr) (0 + y) \<and>
       linked (N @ ?N2) (base + y) = linked (?C @ Nr) (0 + y)"
      by (simp add: ac_simps)
  qed
  have g5: "received (dst r') = received d0 @ pieces sb (N @ ?N2) 0 (take (nat (base + ct)) (s @ b))"
    unfolding tk pieces_append lenX
    using ws(9) rc stable fresh by (simp add: X_def)
  have lshift: "flushLimit (int (length (s @ b))) (int (length (s @ b))) P'
      = flushLimit (int (length ?B)) (int (length ?B)) P' + base"
    using flushLimit_shift [of "int (length ?B)" base "int (length ?B)" P'] la
    by (simp add: ac_simps)
  have g6: "\<forall>x. flushLimit (int (length (s @ b))) (int (length (s @ b))) P' \<le> x \<and> 0 \<le> x
      \<and> x < base + ct \<longrightarrow> linked (N @ ?N2) x"
  proof (intro allI impI)
    fix x :: int
    assume x: "flushLimit (int (length (s @ b))) (int (length (s @ b))) P' \<le> x \<and> 0 \<le> x
      \<and> x < base + ct"
    show "linked (N @ ?N2) x"
    proof (cases "x < base")
      case True
      have "flushLimit ?l ?l P \<le> x"
        using mono x by simp
      with fin x True have "linked N x" by simp
      then show ?thesis by (simp add: linked_append)
    next
      case False
      then have 1: "0 \<le> x - base" by simp
      have 2: "flushLimit (int (length ?B)) (int (length ?B)) P' \<le> x - base"
        using x lshift by simp
      have 3: "x - base < ct" using x by simp
      from ws(11) 1 2 3 have "linked (?C @ Nr) (x - base)" by blast
      with cn [OF 1] show ?thesis by simp
    qed
  qed
  have "tracks d0 sb r' (s @ b) (N @ ?N2)"
    unfolding tracks_def
    using ws(3,12) g1 g2 g3 g4 g5 g6 unfolding ws(4)
    by blast
  with ws(2) ab ws(4,13) show ?thesis
    unfolding pmq ixq by blast
qed

subsection \<open>New, Reset, Flush and whole runs\<close>

lemma idxOK_addNeedle: "idxOK idx \<Longrightarrow> idxOK (addNeedle idx s)"
  by (auto simp: idxOK_def addNeedle_def)

lemma idxOK_foldl: "idxOK idx \<Longrightarrow> idxOK (foldl addNeedle idx ns)"
  by (induction ns arbitrary: idx) (simp_all add: idxOK_addNeedle)

lemma New_fields:
  "subst (New d sb needles) = sb" "needlesByFirstByte (New d sb needles) = needleIndex needles"
  "dst (New d sb needles) = d" "buf (New d sb needles) = []"
  "partialMatches (New d sb needles) = []" "nextMatches (New d sb needles) = []"
  "completedMatches (New d sb needles) = []"
  by (simp_all add: New_def Reset_def needleIndex_def)

lemma idxOK_needleIndex: "idxOK (needleIndex needles)"
proof -
  have "idxOK (\<lambda>c. [])" by (simp add: idxOK_def)
  then show ?thesis by (simp add: needleIndex_def idxOK_foldl)
qed

lemma inv_New: "reliable d \<Longrightarrow> inv (New d sb needles)"
  by (simp add: inv_def New_fields idxOK_needleIndex)

lemma tracks_New:
  "reliable d \<Longrightarrow> tracks d sb (New d sb needles) [] []"
  unfolding tracks_def using inv_New [of d sb needles]
  by (simp add: New_fields covered_Nil linked_Nil)



lemma tracks_WriteAll:
  "tracks d0 sb r s N \<Longrightarrow>
     \<exists>r' N2. scanStream (needlesByFirstByte r) (partialMatches r) (int (length s)) (concat chunks)
                = Some (partialMatches r', N2)
       \<and> WriteAll r chunks = Some r' \<and> tracks d0 sb r' (s @ concat chunks) (N @ N2)
       \<and> needlesByFirstByte r' = needlesByFirstByte r"
proof (induction chunks arbitrary: r s N)
  case Nil
  then show ?case by simp
next
  case (Cons b chunks)
  show ?case
  proof (cases "b = []")
    case True
    then have "Write r b = Some (r, 0, None)"
      by (simp add: Write_def)
    with Cons.IH [OF Cons.prems] True show ?thesis by simp
  next
    case False
    from tracks_Write [OF Cons.prems False] obtain r1 N1 where
      w: "scanStream (needlesByFirstByte r) (partialMatches r) (int (length s)) b
            = Some (partialMatches r1, N1)"
        "Write r b = Some (r1, int (length b), None)" "tracks d0 sb r1 (s @ b) (N @ N1)"
        "needlesByFirstByte r1 = needlesByFirstByte r"
      by blast
    from Cons.IH [OF w(3)] obtain r' N2 where
      ih: "scanStream (needlesByFirstByte r1) (partialMatches r1) (int (length (s @ b)))
             (concat chunks) = Some (partialMatches r', N2)"
        "WriteAll r1 chunks = Some r'"
        "tracks d0 sb r' ((s @ b) @ concat chunks) ((N @ N1) @ N2)"
        "needlesByFirstByte r' = needlesByFirstByte r1"
      by blast
    have "scanStream (needlesByFirstByte r) (partialMatches r) (int (length s))
        (concat (b # chunks)) = Some (partialMatches r', N1 @ N2)"
      using scanStream_append [of "needlesByFirstByte r" "partialMatches r" "int (length s)" b
          "concat chunks"] w(1,4) ih(1)
      by simp
    moreover have "WriteAll r (b # chunks) = Some r'"
      using w(2) ih(2) by simp
    ultimately show ?thesis
      using ih(3,4) w(4) by (intro exI [of _ r'] exI [of _ "N1 @ N2"]) simp
  qed
qed

lemma tracks_Flush:
  assumes tr: "tracks d0 sb r s N"
  shows "\<exists>r'. Flush r = Some (r', None) \<and> received (dst r') = received d0 @ pieces sb N 0 s"
proof -
  from tr obtain base where
    iv: "inv r" and sbq: "subst r = sb"
    and b0: "0 \<le> base" and bq: "base = int (length s) - int (length (buf r))"
    and bufq: "buf r = drop (nat base) s"
    and cl: "\<forall>x. 0 \<le> x \<longrightarrow>
            covered (completedMatches r) x = covered N (x + base) \<and>
            linked (completedMatches r) x = linked N (x + base)"
    and rc: "received (dst r) = received d0 @ pieces sb N 0 (take (nat base) s)"
    unfolding tracks_def by blast
  define r0 where "r0 = r\<lparr>partialMatches := []\<rparr>"
  have sel: "buf r0 = buf r" "completedMatches r0 = completedMatches r" "dst r0 = dst r"
    "subst r0 = sb"
    by (simp_all add: r0_def sbq)
  from iv have p1: "chain (completedMatches r0)"
    and p2: "\<forall>m \<in> set (completedMatches r0). 0 < rto m \<and> rto m \<le> int (length (buf r0))"
    and p3: "reliable (dst r0)"
    by (simp_all add: inv_def sel)
  have p4: "int (length (buf r)) \<le> int (length (buf r0))"
    by (simp add: sel)
  note spec = flushUpTo_spec [OF p1 p2 p3 p4, unfolded sel]
  from spec obtain r' ct where
    fl: "flushUpTo r0 (int (length (buf r))) = Some (r', None)"
      "ct \<le> int (length (buf r))" "int (length (buf r)) \<le> ct"
      "received (dst r') = received (dst r) @ pieces sb (completedMatches r) 0 (take (nat ct) (buf r))"
    by blast
  have run: "Flush r = Some (r', None)"
    using fl(1) by (simp add: Flush_def r0_def)
  have ct: "nat ct = length (buf r)" using fl(2,3) by simp
  have lenX: "int (length (take (nat base) s)) = base"
    using b0 bq by simp
  have "pieces sb (completedMatches r) 0 (buf r) = pieces sb N base (buf r)"
  proof (rule pieces_cong2)
    fix y :: int
    assume "0 \<le> y"
    with cl show "covered (completedMatches r) (0 + y) = covered N (base + y) \<and>
        linked (completedMatches r) (0 + y) = linked N (base + y)"
      by (simp add: ac_simps)
  qed
  then have "received (dst r') = received d0 @ pieces sb N 0 (take (nat base) s @ drop (nat base) s)"
    unfolding pieces_append lenX using fl(4) rc ct bufq by simp
  with run show ?thesis by simp
qed

lemma filterStream_redacted:
  assumes "reliable d"
  shows "filterStream d sb needles chunks
    = Some (received d @ redacted sb (needleIndex needles) (concat chunks))"
proof -
  from tracks_WriteAll [OF tracks_New [OF assms, of sb needles], of chunks] obtain r N where
    r: "scanStream (needleIndex needles) [] 0 (concat chunks) = Some (partialMatches r, N)"
      "WriteAll (New d sb needles) chunks = Some r"
      "tracks d sb r (concat chunks) N"
    by (auto simp: New_fields)
  from tracks_Flush [OF r(3)] obtain r' where
    "Flush r = Some (r', None)"
    "received (dst r') = received d @ pieces sb N 0 (concat chunks)"
    by blast
  with r(1,2) show ?thesis
    by (simp add: filterStream_def redacted_def)
qed

text \<open>
  C2.  With a sink that never fails, writing a stream in any chunks (empty ones
  included) and flushing delivers to the sink exactly what writing the whole stream in
  one \<open>Write\<close> call and flushing delivers, and both runs succeed.
\<close>

theorem chunking_independent:
  assumes "reliable d"
  shows "filterStream d sb needles chunks = filterStream d sb needles [concat chunks]
       \<and> filterStream d sb needles chunks \<noteq> None"
  using filterStream_redacted [OF assms, of sb needles chunks]
    filterStream_redacted [OF assms, of sb needles "[concat chunks]"]
  by simp

theorem chunking_independent_witness:
  "reliable emptySink
   \<and> filterStream emptySink ''[REDACTED]'' [''sekret''] [''the sek'', ''ret is safe'']
     = filterStream emptySink ''[REDACTED]'' [''sekret''] [''the sekret is safe'']
   \<and> filterStream emptySink ''[REDACTED]'' [''sekret''] [''the sek'', ''ret is safe'']
     = Some ''the [REDACTED] is safe''"
proof -
  have r: "reliable emptySink"
    by (simp add: reliable_def emptySink_def)
  have e: "filterStream emptySink ''[REDACTED]'' [''sekret''] [''the sek'', ''ret is safe'']
     = Some ''the [REDACTED] is safe''"
    by code_simp
  from chunking_independent [OF r, of "''[REDACTED]''" "[''sekret'']" "[''the sek'', ''ret is safe'']"]
    r e show ?thesis
    by simp
qed

subsection \<open>The retained tail\<close>

lemma flushLimit_nonpos:
  "flushLimit l l P \<le> 0 \<longleftrightarrow> l \<le> 0 \<or> (\<exists>s \<in> set P. l \<le> matched s)"
proof -
  have "\<not> flushLimit l l P \<le> 0 \<longleftrightarrow> 1 \<le> flushLimit l l P"
    by linarith
  also have "\<dots> \<longleftrightarrow> 1 \<le> l \<and> (\<forall>s \<in> set P. 1 \<le> l - matched s)"
    by (rule flushLimit_glb)
  also have "\<dots> \<longleftrightarrow> \<not> (l \<le> 0 \<or> (\<exists>s \<in> set P. l \<le> matched s))"
    by (auto simp: not_le)
  finally show ?thesis by blast
qed

lemma tight_cases:
  assumes "inv r" "tight r"
  shows "buf r = [] \<or>
    (\<exists>s \<in> set (partialMatches r).
        int (length (buf r)) \<le> matched s \<and> matched s < int (length (needle s)))"
proof -
  from assms(2) have "int (length (buf r)) \<le> 0 \<or>
      (\<exists>s \<in> set (partialMatches r). int (length (buf r)) \<le> matched s)"
    by (simp add: tight_def flushLimit_nonpos)
  moreover have "\<forall>s \<in> set (partialMatches r). matched s < int (length (needle s))"
    using assms(1) by (simp add: inv_def list_all_iff pmOK_def)
  ultimately show ?thesis by auto
qed

lemma Write_tight:
  assumes iv: "inv r" and ne: "b \<noteq> []"
  shows "\<exists>r'. Write r b = Some (r', int (length b), None) \<and> inv r' \<and> tight r' \<and>
      int (length (buf r')) \<le> int (length (buf r @ b))
        - flushLimit (int (length (buf r @ b))) (int (length (buf r @ b))) (partialMatches r')"
proof -
  let ?L = "int (length (buf r @ b))"
  from Write_spec [OF iv ne] obtain r' ct where
    ws: "Write r b = Some (r', int (length b), None)" "inv r'"
      "0 \<le> ct" "ct \<le> ?L" "flushLimit ?L ?L (partialMatches r') \<le> ct"
      "buf r' = drop (nat ct) (buf r @ b)"
    by blast
  have len: "int (length (buf r')) = ?L - ct"
    using ws(3,4,6) by simp
  have "flushLimit (?L - ct) (?L - ct) (partialMatches r')
      = flushLimit ?L ?L (partialMatches r') - ct"
    using flushLimit_shift [of "?L - ct" ct "?L - ct" "partialMatches r'"] by simp
  then have "tight r'"
    using ws(5) by (simp add: tight_def len)
  with ws(1,2,5) len show ?thesis by auto
qed

lemma WriteAll_tight:
  "inv r \<Longrightarrow> tight r \<Longrightarrow> \<exists>r'. WriteAll r chunks = Some r' \<and> inv r' \<and> tight r'"
proof (induction chunks arbitrary: r)
  case Nil
  then show ?case by simp
next
  case (Cons b chunks)
  show ?case
  proof (cases "b = []")
    case True
    then have "Write r b = Some (r, 0, None)"
      by (simp add: Write_def)
    with Cons.IH [OF Cons.prems] show ?thesis by simp
  next
    case False
    from Write_tight [OF Cons.prems(1) False] obtain r1 where
      "Write r b = Some (r1, int (length b), None)" "inv r1" "tight r1"
      by blast
    with Cons.IH [of r1] show ?thesis by simp
  qed
qed

lemma tight_New: "tight (New d sb needles)"
  by (simp add: tight_def New_fields flushLimit.simps)

text \<open>
  C4 (as amended).  With a sink that never fails, every sequence of \<open>Write\<close> calls on a
  new redactor succeeds, and so does one more \<open>Write\<close> of any chunk \<open>b\<close>.  After it the
  retained buffer is at most as long as the buffer with \<open>b\<close> appended minus the flush
  limit, that is, at most the largest matched count of a surviving partial match; so
  it is empty, or some surviving partial match has matched at least as many bytes as
  are retained, and fewer than its needle has.
\<close>

theorem retained_tail_bounded:
  assumes "reliable d"
  shows "\<exists>r0 r'. WriteAll (New d sb needles) chunks = Some r0
      \<and> Write r0 b = Some (r', int (length b), None)
      \<and> int (length (buf r')) \<le> int (length (buf r0 @ b))
          - flushLimit (int (length (buf r0 @ b))) (int (length (buf r0 @ b))) (partialMatches r')
      \<and> (buf r' = [] \<or>
          (\<exists>s \<in> set (partialMatches r').
              int (length (buf r')) \<le> matched s \<and> matched s < int (length (needle s))))"
proof -
  from WriteAll_tight [OF inv_New [OF assms] tight_New, of sb needles chunks]
  obtain r0 where r0: "WriteAll (New d sb needles) chunks = Some r0" "inv r0" "tight r0"
    by blast
  show ?thesis
  proof (cases "b = []")
    case True
    then have w: "Write r0 b = Some (r0, int (length b), None)"
      by (simp add: Write_def)
    have "int (length (buf r0)) \<le> int (length (buf r0 @ b))
          - flushLimit (int (length (buf r0 @ b))) (int (length (buf r0 @ b))) (partialMatches r0)"
      using r0(3) True by (simp add: tight_def)
    with r0(1) w tight_cases [OF r0(2,3)] show ?thesis by blast
  next
    case False
    from Write_tight [OF r0(2) False] obtain r' where
      w: "Write r0 b = Some (r', int (length b), None)" "inv r'" "tight r'"
        "int (length (buf r')) \<le> int (length (buf r0 @ b))
          - flushLimit (int (length (buf r0 @ b))) (int (length (buf r0 @ b))) (partialMatches r')"
      by blast
    with r0(1) tight_cases [OF w(2,3)] show ?thesis by blast
  qed
qed

theorem retained_tail_bounded_witness:
  "reliable emptySink
   \<and> (\<exists>r0 r'. WriteAll (New emptySink ''[REDACTED]'' [''sekret'']) [''the '', ''se''] = Some r0
      \<and> Write r0 ''k'' = Some (r', int (length ''k''), None)
      \<and> int (length (buf r')) \<le> int (length (buf r0 @ ''k''))
          - flushLimit (int (length (buf r0 @ ''k''))) (int (length (buf r0 @ ''k''))) (partialMatches r')
      \<and> (buf r' = [] \<or>
          (\<exists>s \<in> set (partialMatches r').
              int (length (buf r')) \<le> matched s \<and> matched s < int (length (needle s)))))"
proof -
  have r: "reliable emptySink"
    by (simp add: reliable_def emptySink_def)
  from retained_tail_bounded [OF r, of "''[REDACTED]''" "[''sekret'']" "[''the '', ''se'']" "''k''"] r
  show ?thesis by blast
qed

text \<open>
  The retained length can be smaller than the buffer length minus the flush limit, so
  the equality claimed fails.  Needles \<open>ab\<close> and \<open>bcd\<close>, \<open>Write "abc"\<close>: the flush limit is
  \<open>3 - 2 = 1\<close>, but the completed range \<open>[0,2)\<close> starts before the limit and is flushed
  whole, so one byte is retained, not two.
\<close>

theorem retained_tail_equality_counterexample:
  "(case Write (New emptySink ''[R]'' [''ab'', ''bcd'']) ''abc'' of
      Some (r', n, None) \<Rightarrow>
        buf r' = ''c'' \<and> partialMatches r' = [\<lparr>needle = ''bcd'', matched = 2\<rparr>] \<and>
        int (length ''abc'') - flushLimit 3 3 (partialMatches r') = 2
    | _ \<Rightarrow> False)"
  by code_simp

subsection \<open>Every occurrence of a needle is found\<close>








subsection \<open>No needle in what the sink receives\<close>











subsection \<open>Reset\<close>







end
